theory Spec2Isabelle
  imports Complex_Main "HOL-Library.Word" "HOL-Library.Sublist"
begin

section \<open>The receipt printer of the shop manager (src/utils/posPrint.ts)\<close>

text \<open>
  A shallow embedding of the class \<open>POSPrinter\<close>: the ESC/POS receipt formatter
  (\<open>formatReceipt\<close>, \<open>padLine\<close>) and the cascade of print transports (\<open>print\<close>,
  \<open>printViaPOSCommand\<close>, \<open>printViaWebUSB\<close>, \<open>printViaAndroidIntent\<close>,
  \<open>printViaWindowsPrint\<close>, \<open>printViaRawSocket\<close>, \<open>printViaSerial\<close>,
  \<open>printViaBrowser\<close>).
\<close>

subsection \<open>JavaScript strings\<close>

text \<open>
  A JavaScript string is a sequence of UTF-16 code units; \<open>length\<close>, \<open>substring\<close>,
  \<open>padStart\<close> and \<open>padEnd\<close> count code units. The rupee sign U+20B9 is one code
  unit. \<open>js\<close> embeds an ASCII literal.
\<close>

type_synonym codeunit = "16 word"
type_synonym jsstring = "codeunit list"
type_synonym byte = "8 word"

definition js :: "string \<Rightarrow> jsstring" where
  "js s = map (\<lambda>c. of_nat (of_char c)) s"

definition space :: codeunit where
  "space = 0x20"

definition repeat :: "jsstring \<Rightarrow> nat \<Rightarrow> jsstring" where
  "repeat s n = concat (replicate n s)"

text \<open>\<open>s.substring(i, j)\<close>: the arguments are swapped when \<open>i > j\<close> and clamped to the length.\<close>

definition substring :: "jsstring \<Rightarrow> nat \<Rightarrow> nat \<Rightarrow> jsstring" where
  "substring s i j = take (max i j - min i j) (drop (min i j) s)"

text \<open>\<open>s.padEnd(n)\<close> and \<open>s.padStart(n)\<close> with the default filler, a space: a string of
  \<open>n\<close> or more code units is returned as it is.\<close>

definition padEnd :: "jsstring \<Rightarrow> nat \<Rightarrow> jsstring" where
  "padEnd s n = (if n \<le> length s then s else s @ replicate (n - length s) space)"

definition padStart :: "jsstring \<Rightarrow> nat \<Rightarrow> jsstring" where
  "padStart s n = (if n \<le> length s then s else replicate (n - length s) space @ s)"

subsection \<open>JavaScript numbers\<close>

text \<open>
  A number is modelled by the exact mathematical value of the double (a rational), or one
  of the three non-finite values; \<open>-0\<close> is not told apart from \<open>0\<close> (\<open>toString\<close>,
  \<open>toFixed\<close> and \<open>> 0\<close> do not tell them apart either).

  \<open>Number.prototype.toFixed(2)\<close> is determined by that value (ECMA-262,
  Number.prototype.toFixed, steps 6 to 12) and is modelled exactly. So is
  \<open>Number::toString\<close> on the integers below \<open>2^53\<close>. For every other finite value
  ECMA-262 leaves the significant digits \<open>s\<close> and the decimal exponent \<open>n\<close> to the
  engine (the shortest digits that read back as the same double): they are the parameter
  \<open>eng\<close>, and the layout of those digits (Number::toString, steps 6 to 12) is modelled.
\<close>

datatype jsnumber = Num rat | NaN | PosInfinity | NegInfinity

type_synonym engine = "rat \<Rightarrow> nat \<times> int"

definition digit :: "nat \<Rightarrow> codeunit" where
  "digit d = of_nat (48 + d)"

fun digits :: "nat \<Rightarrow> jsstring" where
  "digits n = (if n < 10 then [digit n] else digits (n div 10) @ [digit (n mod 10)])"

declare digits.simps [simp del]

definition positive_toString :: "engine \<Rightarrow> rat \<Rightarrow> jsstring" where
  "positive_toString eng q =
     (if of_int \<lfloor>q\<rfloor> = q \<and> q < 2 ^ 53 then digits (nat \<lfloor>q\<rfloor>)
      else
        let (s, n) = eng q; ds = digits s; k = int (length ds) in
        if k \<le> n \<and> n \<le> 21 then ds @ replicate (nat (n - k)) (digit 0)
        else if 0 < n \<and> n \<le> 21 then take (nat n) ds @ js ''.'' @ drop (nat n) ds
        else if - 6 < n \<and> n \<le> 0 then js ''0.'' @ replicate (nat (- n)) (digit 0) @ ds
        else
          let e = n - 1; es = (if e < 0 then js ''-'' else js ''+'') @ digits (nat \<bar>e\<bar>) in
          if k = 1 then ds @ js ''e'' @ es
          else take 1 ds @ js ''.'' @ drop 1 ds @ js ''e'' @ es)"

definition Number_toString :: "engine \<Rightarrow> jsnumber \<Rightarrow> jsstring" where
  "Number_toString eng x =
     (case x of
        NaN \<Rightarrow> js ''NaN''
      | PosInfinity \<Rightarrow> js ''Infinity''
      | NegInfinity \<Rightarrow> js ''-Infinity''
      | Num q \<Rightarrow>
          if q = 0 then js ''0''
          else if q < 0 then js ''-'' @ positive_toString eng (- q)
          else positive_toString eng q)"

definition toFixed2 :: "engine \<Rightarrow> jsnumber \<Rightarrow> jsstring" where
  "toFixed2 eng x =
     (case x of
        Num q \<Rightarrow>
          let s = (if q < 0 then js ''-'' else []); a = \<bar>q\<bar> in
          if 10 ^ 21 \<le> a then s @ positive_toString eng a
          else
            let n = nat \<lfloor>a * 100 + 1 / 2\<rfloor>;
                m = digits n;
                m = (if length m \<le> 2 then replicate (3 - length m) (digit 0) @ m else m);
                k = length m
            in s @ take (k - 2) m @ js ''.'' @ drop (k - 2) m
      | _ \<Rightarrow> Number_toString eng x)"

text \<open>\<open>x > 0\<close> on numbers: false for \<open>NaN\<close>.\<close>

definition gt0 :: "jsnumber \<Rightarrow> bool" where
  "gt0 x = (case x of Num q \<Rightarrow> 0 < q | PosInfinity \<Rightarrow> True | _ \<Rightarrow> False)"

subsection \<open>The data (interfaces \<open>PrintItem\<close> and \<open>PrintData\<close>)\<close>

record PrintItem =
  name :: jsstring
  quantity :: jsnumber
  price :: jsnumber
  total :: jsnumber

record PrintData =
  storeName :: jsstring
  customerName :: "jsstring option"
  customerPhone :: "jsstring option"
  items :: "PrintItem list"
  subtotal :: jsnumber
  tax :: jsnumber
  taxPercentage :: jsnumber
  grandTotal :: jsnumber
  currency :: jsstring
  paymentMethod :: jsstring

text \<open>The field \<open>total\<close> of \<open>PrintData\<close> is \<open>grandTotal\<close> here (\<open>total\<close> is the item's).
  An optional string is truthy when it is present and not empty.\<close>

definition truthy :: "jsstring option \<Rightarrow> bool" where
  "truthy s = (case s of None \<Rightarrow> False | Some t \<Rightarrow> t \<noteq> [])"

subsection \<open>ESC/POS commands\<close>

definition ESC :: jsstring where "ESC = [0x1B]"
definition GS :: jsstring where "GS = [0x1D]"
definition LF :: jsstring where "LF = [0x0A]"

definition INIT :: jsstring where "INIT = ESC @ js ''@''"
definition ALIGN_CENTER :: jsstring where "ALIGN_CENTER = ESC @ js ''a'' @ [0x01]"
definition ALIGN_LEFT :: jsstring where "ALIGN_LEFT = ESC @ js ''a'' @ [0x00]"
definition ALIGN_RIGHT :: jsstring where "ALIGN_RIGHT = ESC @ js ''a'' @ [0x02]"
definition BOLD_ON :: jsstring where "BOLD_ON = ESC @ js ''E'' @ [0x01]"
definition BOLD_OFF :: jsstring where "BOLD_OFF = ESC @ js ''E'' @ [0x00]"
definition SIZE_NORMAL :: jsstring where "SIZE_NORMAL = GS @ js ''!'' @ [0x00]"
definition SIZE_DOUBLE :: jsstring where "SIZE_DOUBLE = GS @ js ''!'' @ [0x11]"
definition CUT_PAPER :: jsstring where "CUT_PAPER = GS @ js ''V'' @ [0x41] @ [0x03]"
definition LINE_FEED :: jsstring where "LINE_FEED = LF"

subsection \<open>\<open>padLine\<close> and \<open>formatReceipt\<close>\<close>

definition col1Width :: nat where "col1Width = 16"
definition col2Width :: nat where "col2Width = 4"
definition col3Width :: nat where "col3Width = 10"
definition col4Width :: nat where "col4Width = 10"

definition padLine :: "jsstring \<Rightarrow> jsstring \<Rightarrow> jsstring \<Rightarrow> jsstring \<Rightarrow> jsstring" where
  "padLine col1 col2 col3 col4 =
     substring (padEnd col1 col1Width) 0 col1Width @
     substring (padStart col2 col2Width) 0 col2Width @
     substring (padStart col3 col3Width) 0 col3Width @
     substring (padStart col4 col4Width) 0 col4Width"

text \<open>
  The body of \<open>formatReceipt\<close> runs on the object it was given and on its local variable
  \<open>receipt\<close>; every statement is a step on that state, and \<open>receipt += s\<close> is \<open>emit s\<close>.
  The timestamp \<open>new Date().toLocaleString()\<close> is the parameter \<open>now\<close>.
\<close>

record fmt_state =
  data :: PrintData
  receipt :: jsstring

definition emit :: "jsstring \<Rightarrow> fmt_state \<Rightarrow> fmt_state" where
  "emit s st = st\<lparr>receipt := receipt st @ s\<rparr>"

definition run :: "(fmt_state \<Rightarrow> fmt_state) list \<Rightarrow> fmt_state \<Rightarrow> fmt_state" where
  "run steps st = fold (\<lambda>step. step) steps st"

text \<open>The callback of \<open>data.items.forEach\<close>.\<close>

definition item_step :: "engine \<Rightarrow> PrintItem \<Rightarrow> fmt_state \<Rightarrow> fmt_state" where
  "item_step eng item st =
     (let name = substring (name item) 0 20;
          qty = Number_toString eng (quantity item);
          price = currency (data st) @ toFixed2 eng (price item);
          total = currency (data st) @ toFixed2 eng (total item)
      in emit (padLine name qty price total @ LINE_FEED) st)"

definition formatReceipt_body :: "engine \<Rightarrow> jsstring \<Rightarrow> fmt_state \<Rightarrow> fmt_state" where
  "formatReceipt_body eng now =
     run [
       emit INIT,
       emit (ESC @ js ''@''),
       emit [0x0A],
       emit ALIGN_CENTER,
       emit SIZE_DOUBLE,
       emit BOLD_ON,
       (\<lambda>st. emit (storeName (data st) @ LINE_FEED) st),
       emit BOLD_OFF,
       emit SIZE_NORMAL,
       emit LINE_FEED,
       emit ALIGN_LEFT,
       emit (repeat (js ''-'') 48 @ LINE_FEED),
       (\<lambda>st. if truthy (customerName (data st))
              then emit (js ''Customer: '' @ the (customerName (data st)) @ LINE_FEED) st else st),
       (\<lambda>st. if truthy (customerPhone (data st))
              then emit (js ''Phone: '' @ the (customerPhone (data st)) @ LINE_FEED) st else st),
       emit (js ''Date: '' @ now @ LINE_FEED),
       (\<lambda>st. emit (js ''Payment: '' @ paymentMethod (data st) @ LINE_FEED) st),
       emit (repeat (js ''-'') 48 @ LINE_FEED),
       emit (padLine (js ''Item'') (js ''Qty'') (js ''Price'') (js ''Total'') @ LINE_FEED),
       emit (repeat (js ''-'') 48 @ LINE_FEED),
       (\<lambda>st. fold (item_step eng) (items (data st)) st),
       emit (repeat (js ''-'') 48 @ LINE_FEED),
       emit ALIGN_RIGHT,
       (\<lambda>st. emit (js ''Subtotal: '' @ currency (data st) @ toFixed2 eng (subtotal (data st))
                     @ LINE_FEED) st),
       (\<lambda>st. if gt0 (taxPercentage (data st))
              then emit (js ''Tax ('' @ Number_toString eng (taxPercentage (data st)) @ js ''%): ''
                          @ currency (data st) @ toFixed2 eng (tax (data st)) @ LINE_FEED) st
              else st),
       emit BOLD_ON,
       (\<lambda>st. emit (js ''TOTAL: '' @ currency (data st) @ toFixed2 eng (grandTotal (data st))
                     @ LINE_FEED) st),
       emit BOLD_OFF,
       emit ALIGN_CENTER,
       emit LINE_FEED,
       emit (js ''Thank you for your business!'' @ LINE_FEED),
       emit LINE_FEED,
       emit LINE_FEED,
       emit CUT_PAPER
     ]"

definition formatReceipt :: "engine \<Rightarrow> jsstring \<Rightarrow> PrintData \<Rightarrow> jsstring" where
  "formatReceipt eng now d = receipt (formatReceipt_body eng now \<lparr>data = d, receipt = []\<rparr>)"

section \<open>The print cascade\<close>

subsection \<open>\<open>TextEncoder.encode\<close>: UTF-16 code units to UTF-8 bytes\<close>

text \<open>A surrogate pair is one code point; a lone surrogate is encoded as U+FFFD.\<close>

definition is_high :: "codeunit \<Rightarrow> bool" where
  "is_high c = (0xD800 \<le> c \<and> c \<le> 0xDBFF)"

definition is_low :: "codeunit \<Rightarrow> bool" where
  "is_low c = (0xDC00 \<le> c \<and> c \<le> 0xDFFF)"

definition scalar :: "codeunit \<Rightarrow> nat" where
  "scalar c = (if is_high c \<or> is_low c then 0xFFFD else unat c)"

definition utf8_of_codepoint :: "nat \<Rightarrow> byte list" where
  "utf8_of_codepoint cp =
     (if cp < 0x80 then [of_nat cp]
      else if cp < 0x800 then [of_nat (0xC0 + cp div 64), of_nat (0x80 + cp mod 64)]
      else if cp < 0x10000 then
        [of_nat (0xE0 + cp div 4096), of_nat (0x80 + cp div 64 mod 64), of_nat (0x80 + cp mod 64)]
      else
        [of_nat (0xF0 + cp div 262144), of_nat (0x80 + cp div 4096 mod 64),
         of_nat (0x80 + cp div 64 mod 64), of_nat (0x80 + cp mod 64)])"

fun utf8_encode :: "jsstring \<Rightarrow> byte list" where
  "utf8_encode [] = []"
| "utf8_encode [c] = utf8_of_codepoint (scalar c)"
| "utf8_encode (c # d # cs) =
     (if is_high c \<and> is_low d
      then utf8_of_codepoint (0x10000 + (unat c - 0xD800) * 0x400 + (unat d - 0xDC00))
             @ utf8_encode cs
      else utf8_of_codepoint (scalar c) @ utf8_encode (d # cs))"

text \<open>\<open>a.slice(i, j)\<close> on a byte array, for \<open>0 \<le> i \<le> j\<close>.\<close>

definition slice :: "byte list \<Rightarrow> nat \<Rightarrow> nat \<Rightarrow> byte list" where
  "slice a i j = take (j - i) (drop i a)"

subsection \<open>The host\<close>

text \<open>
  Everything outside the class is the host: the clock, the number rendering of the engine,
  \<open>navigator\<close>, \<open>window\<close>, the devices and the network. A host says, for each call the
  code makes, whether the call returns or throws (a rejected promise is a throw at its
  \<open>await\<close>), and what feature tests find. The \<open>k\<close>-th evaluation of
  \<open>new Date().toLocaleString()\<close> in a run returns \<open>toLocaleString h k\<close>.
\<close>

datatype fetch_result = FetchRejected | FetchResponse bool

datatype open_result = OpenThrows | OpenNull | OpenWindow

record host =
  number_engine :: engine
  toLocaleString :: "nat \<Rightarrow> jsstring"
  usb_in_navigator :: bool
  usb_requestDevice :: bool
  usb_open :: bool
  usb_selectConfiguration :: bool
  usb_claimInterface :: bool
  usb_transferOut :: "byte list \<Rightarrow> bool"
  usb_close :: bool
  android_defined :: bool
  android_print :: "jsstring \<Rightarrow> bool"
  androidIntent_in_window :: bool
  androidIntent_print :: "jsstring \<Rightarrow> bool"
  external_print_defined :: bool
  external_print :: "jsstring \<Rightarrow> bool"
  fetch :: "jsstring \<Rightarrow> jsstring \<Rightarrow> fetch_result"
  serial_in_navigator :: bool
  serial_requestPort :: bool
  serial_open :: "nat \<Rightarrow> bool"
  serial_getWriter :: bool
  serial_write :: "nat \<Rightarrow> byte list \<Rightarrow> bool"
  serial_releaseLock :: bool
  serial_close :: bool
  window_open :: open_result
  document_write :: "jsstring \<Rightarrow> PrintData \<Rightarrow> bool"
  document_close :: bool

subsection \<open>Errors, events and the world\<close>

text \<open>The errors the code throws, by their messages; \<open>HostError\<close> is an exception of the
  host.\<close>

datatype error =
    HostError
  | WebUSBNotSupported
  | WebUSBPrintFailed error
  | AndroidNotAvailable
  | WindowsNotAvailable
  | RawSocketFailed
  | AllPOSMethodsFailed
  | SerialNotAvailable
  | NoSerialConnection
  | SerialPrintingFailed error

datatype strategy = WebUSB | AndroidIntent | WindowsPrint | RawSocket | Serial | Browser

text \<open>
  The trace of a run: every call into the host, in order, with what it was given.
  \<open>Invoke s\<close>, \<open>Resolved s\<close> and \<open>Rejected s e\<close> are the entry into the function of a
  strategy and the way its promise settles. \<open>DocumentWrite now d\<close> stands for
  \<open>document.write(receiptHTML)\<close>: the markup is a fixed template filled from the receipt
  \<open>d\<close> and the timestamp \<open>now\<close>.
\<close>

datatype event =
    Invoke strategy
  | Resolved strategy
  | Rejected strategy error
  | ConsoleLog_method error
  | ConsoleLog_baud nat
  | ConsoleError_POS error
  | ConsoleError_Serial error
  | UsbRequestDevice "nat list"
  | UsbOpen
  | UsbSelectConfiguration nat
  | UsbClaimInterface nat
  | UsbTransferOut nat "byte list"
  | UsbClose
  | AndroidPrint jsstring
  | AndroidIntentPrint jsstring
  | ExternalPrint jsstring
  | Fetch jsstring jsstring
  | SerialRequestPort
  | SerialOpen nat
  | SerialGetWriter
  | SerialWrite "byte list"
  | Sleep nat
  | SerialReleaseLock
  | SerialClose
  | WindowOpen
  | DocumentWrite jsstring PrintData
  | DocumentClose

record world =
  trace :: "event list"
  clock_reads :: nat

type_synonym 'a io = "world \<Rightarrow> (error + 'a) \<times> world"

definition pure :: "'a \<Rightarrow> 'a io" where
  "pure x w = (Inr x, w)"

definition throw :: "error \<Rightarrow> 'a io" where
  "throw e w = (Inl e, w)"

definition bind :: "'a io \<Rightarrow> ('a \<Rightarrow> 'b io) \<Rightarrow> 'b io" where
  "bind m f w = (case m w of (Inl e, w') \<Rightarrow> (Inl e, w') | (Inr x, w') \<Rightarrow> f x w')"

definition try_catch :: "'a io \<Rightarrow> (error \<Rightarrow> 'a io) \<Rightarrow> 'a io" where
  "try_catch m handler w = (case m w of (Inl e, w') \<Rightarrow> handler e w' | (Inr x, w') \<Rightarrow> (Inr x, w'))"

definition tell :: "event \<Rightarrow> unit io" where
  "tell e w = (Inr (), w\<lparr>trace := trace w @ [e]\<rparr>)"

text \<open>A call into the host: it is traced, and it returns or throws as the host says.\<close>

definition call :: "event \<Rightarrow> bool \<Rightarrow> unit io" where
  "call e returns w = (if returns then Inr () else Inl HostError, w\<lparr>trace := trace w @ [e]\<rparr>)"

fun block :: "unit io list \<Rightarrow> unit io" where
  "block [] = pure ()"
| "block (m # ms) = bind m (\<lambda>u. block ms)"

definition read_clock :: "host \<Rightarrow> jsstring io" where
  "read_clock h w = (Inr (toLocaleString h (clock_reads w)), w\<lparr>clock_reads := Suc (clock_reads w)\<rparr>)"

text \<open>\<open>this.formatReceipt(data)\<close> in a run: the clock is read once.\<close>

definition formatReceipt_now :: "host \<Rightarrow> PrintData \<Rightarrow> jsstring io" where
  "formatReceipt_now h d = bind (read_clock h) (\<lambda>now. pure (formatReceipt (number_engine h) now d))"

definition attempt :: "strategy \<Rightarrow> unit io \<Rightarrow> unit io" where
  "attempt s m =
     bind (tell (Invoke s)) (\<lambda>u.
       try_catch (bind m (\<lambda>u. tell (Resolved s)))
         (\<lambda>e. bind (tell (Rejected s e)) (\<lambda>u. throw e)))"

subsection \<open>The strategies\<close>

definition printViaWebUSB :: "host \<Rightarrow> jsstring \<Rightarrow> unit io" where
  "printViaWebUSB h receiptData =
     attempt WebUSB
       (if \<not> usb_in_navigator h then throw WebUSBNotSupported
        else
          try_catch
            (block [
               call (UsbRequestDevice [0x04b8, 0x0519, 0x0dd4]) (usb_requestDevice h),
               call UsbOpen (usb_open h),
               call (UsbSelectConfiguration 1) (usb_selectConfiguration h),
               call (UsbClaimInterface 0) (usb_claimInterface h),
               call (UsbTransferOut 1 (utf8_encode receiptData))
                 (usb_transferOut h (utf8_encode receiptData)),
               call UsbClose (usb_close h)
             ])
            (\<lambda>error. throw (WebUSBPrintFailed error)))"

definition printViaAndroidIntent :: "host \<Rightarrow> jsstring \<Rightarrow> unit io" where
  "printViaAndroidIntent h receiptData =
     attempt AndroidIntent
       (if android_defined h then call (AndroidPrint receiptData) (android_print h receiptData)
        else if androidIntent_in_window h
          then call (AndroidIntentPrint receiptData) (androidIntent_print h receiptData)
        else throw AndroidNotAvailable)"

definition printViaWindowsPrint :: "host \<Rightarrow> jsstring \<Rightarrow> unit io" where
  "printViaWindowsPrint h receiptData =
     attempt WindowsPrint
       (if external_print_defined h
          then call (ExternalPrint receiptData) (external_print h receiptData)
        else throw WindowsNotAvailable)"

definition printerIPs :: "jsstring list" where
  "printerIPs = [js ''192.168.1.100'', js ''192.168.0.100'', js ''10.0.0.100'']"

fun fetch_loop :: "host \<Rightarrow> jsstring \<Rightarrow> jsstring list \<Rightarrow> unit io" where
  "fetch_loop h receiptData [] = throw RawSocketFailed"
| "fetch_loop h receiptData (ip # ips) =
     bind (tell (Fetch (js ''http://'' @ ip @ js '':9100'') receiptData)) (\<lambda>u.
       case fetch h (js ''http://'' @ ip @ js '':9100'') receiptData of
         FetchResponse True \<Rightarrow> pure ()
       | FetchResponse False \<Rightarrow> fetch_loop h receiptData ips
       | FetchRejected \<Rightarrow> fetch_loop h receiptData ips)"

definition printViaRawSocket :: "host \<Rightarrow> jsstring \<Rightarrow> unit io" where
  "printViaRawSocket h receiptData = attempt RawSocket (fetch_loop h receiptData printerIPs)"

text \<open>The loop \<open>for (const method of methods)\<close> of \<open>printViaPOSCommand\<close>.\<close>

fun try_methods :: "unit io list \<Rightarrow> unit io" where
  "try_methods [] = throw AllPOSMethodsFailed"
| "try_methods (method # methods) =
     try_catch method (\<lambda>error. bind (tell (ConsoleLog_method error)) (\<lambda>u. try_methods methods))"

definition printViaPOSCommand :: "host \<Rightarrow> PrintData \<Rightarrow> unit io" where
  "printViaPOSCommand h d =
     bind (formatReceipt_now h d) (\<lambda>receiptData.
       try_methods [
         printViaWebUSB h receiptData,
         printViaAndroidIntent h receiptData,
         printViaWindowsPrint h receiptData,
         printViaRawSocket h receiptData
       ])"

definition baudRates :: "nat list" where
  "baudRates = [9600, 115200, 38400, 19200]"

text \<open>The loop over the baud rates, and the throw when none connected.\<close>

fun connect :: "host \<Rightarrow> nat list \<Rightarrow> unit io" where
  "connect h [] = throw NoSerialConnection"
| "connect h (baudRate # rates) =
     try_catch (call (SerialOpen baudRate) (serial_open h baudRate))
       (\<lambda>error. bind (tell (ConsoleLog_baud baudRate)) (\<lambda>u. connect h rates))"

definition chunkSize :: nat where
  "chunkSize = 64"

text \<open>The loop \<open>for (let i = 0; i < dataArray.length; i += chunkSize)\<close>, from \<open>i\<close> on: a
  write that throws ends it.\<close>

function write_chunks :: "host \<Rightarrow> byte list \<Rightarrow> nat \<Rightarrow> unit io" where
  "write_chunks h dataArray i w =
     (if i < length dataArray then
        (case call (SerialWrite (slice dataArray i (i + chunkSize)))
                (serial_write h i (slice dataArray i (i + chunkSize))) w of
           (Inl e, w') \<Rightarrow> (Inl e, w')
         | (Inr u, w') \<Rightarrow> write_chunks h dataArray (i + chunkSize) (snd (tell (Sleep 10) w')))
      else (Inr (), w))"
  by pat_completeness auto
termination
  by (relation "measure (\<lambda>(h, dataArray, i, w). length dataArray - i)")
     (auto simp: chunkSize_def)

declare write_chunks.simps [simp del]

definition printViaSerial :: "host \<Rightarrow> PrintData \<Rightarrow> unit io" where
  "printViaSerial h d =
     attempt Serial
       (try_catch
          (block [
             call SerialRequestPort (serial_requestPort h),
             connect h baudRates,
             call SerialGetWriter (serial_getWriter h),
             bind (formatReceipt_now h d) (\<lambda>receiptData.
               write_chunks h (utf8_encode receiptData) 0),
             call SerialReleaseLock (serial_releaseLock h),
             call SerialClose (serial_close h)
           ])
          (\<lambda>error. throw (SerialPrintingFailed error)))"

text \<open>\<open>printViaBrowser\<close> builds the markup (the clock is read), opens a window and, when
  there is one, writes the markup and closes the document; with no window it does nothing.\<close>

definition printViaBrowser :: "host \<Rightarrow> PrintData \<Rightarrow> unit io" where
  "printViaBrowser h d =
     attempt Browser
       (bind (read_clock h) (\<lambda>now.
          case window_open h of
            OpenThrows \<Rightarrow> call WindowOpen False
          | OpenNull \<Rightarrow> tell WindowOpen
          | OpenWindow \<Rightarrow>
              block [
                tell WindowOpen,
                call (DocumentWrite now d) (document_write h now d),
                call DocumentClose (document_close h)
              ]))"

subsection \<open>\<open>print\<close>\<close>

definition print :: "host \<Rightarrow> PrintData \<Rightarrow> unit io" where
  "print h d =
     try_catch (printViaPOSCommand h d) (\<lambda>error.
       bind (tell (ConsoleError_POS error)) (\<lambda>u.
         try_catch
           (if serial_in_navigator h then printViaSerial h d else throw SerialNotAvailable)
           (\<lambda>serialError.
              bind (tell (ConsoleError_Serial serialError)) (\<lambda>u. printViaBrowser h d))))"

section \<open>Vocabulary of the properties\<close>

subsection \<open>The lines of a receipt\<close>

text \<open>The row \<open>formatReceipt\<close> emits for one item, the tax line, and the whole text
  written as one concatenation (\<open>formatReceipt_eq\<close> below proves it is what the body
  builds).\<close>

definition item_row :: "engine \<Rightarrow> jsstring \<Rightarrow> PrintItem \<Rightarrow> jsstring" where
  "item_row eng cur item =
     padLine (substring (name item) 0 20) (Number_toString eng (quantity item))
       (cur @ toFixed2 eng (price item)) (cur @ toFixed2 eng (total item))"

definition tax_line :: "engine \<Rightarrow> PrintData \<Rightarrow> jsstring" where
  "tax_line eng d =
     js ''Tax ('' @ Number_toString eng (taxPercentage d) @ js ''%): '' @ currency d
       @ toFixed2 eng (tax d) @ LINE_FEED"

definition receipt_text :: "engine \<Rightarrow> jsstring \<Rightarrow> PrintData \<Rightarrow> jsstring" where
  "receipt_text eng now d =
     INIT @ (ESC @ js ''@'') @ [0x0A] @ ALIGN_CENTER @ SIZE_DOUBLE @ BOLD_ON
     @ (storeName d @ LINE_FEED) @ BOLD_OFF @ SIZE_NORMAL @ LINE_FEED
     @ ALIGN_LEFT @ (repeat (js ''-'') 48 @ LINE_FEED)
     @ (if truthy (customerName d) then js ''Customer: '' @ the (customerName d) @ LINE_FEED else [])
     @ (if truthy (customerPhone d) then js ''Phone: '' @ the (customerPhone d) @ LINE_FEED else [])
     @ (js ''Date: '' @ now @ LINE_FEED)
     @ (js ''Payment: '' @ paymentMethod d @ LINE_FEED)
     @ (repeat (js ''-'') 48 @ LINE_FEED)
     @ (padLine (js ''Item'') (js ''Qty'') (js ''Price'') (js ''Total'') @ LINE_FEED)
     @ (repeat (js ''-'') 48 @ LINE_FEED)
     @ concat (map (\<lambda>i. item_row eng (currency d) i @ LINE_FEED) (items d))
     @ (repeat (js ''-'') 48 @ LINE_FEED)
     @ ALIGN_RIGHT
     @ (js ''Subtotal: '' @ currency d @ toFixed2 eng (subtotal d) @ LINE_FEED)
     @ (if gt0 (taxPercentage d) then tax_line eng d else [])
     @ BOLD_ON
     @ (js ''TOTAL: '' @ currency d @ toFixed2 eng (grandTotal d) @ LINE_FEED)
     @ BOLD_OFF @ ALIGN_CENTER @ LINE_FEED
     @ (js ''Thank you for your business!'' @ LINE_FEED)
     @ LINE_FEED @ LINE_FEED @ CUT_PAPER @ []"

text \<open>The text of a receipt up to the line of the subtotal, and the text from the bold
  total on: what is emitted before and after the place of the tax line. Neither reads
  \<open>tax\<close> or \<open>taxPercentage\<close>.\<close>

definition before_tax :: "engine \<Rightarrow> jsstring \<Rightarrow> PrintData \<Rightarrow> jsstring" where
  "before_tax eng now d =
     INIT @ (ESC @ js ''@'') @ [0x0A] @ ALIGN_CENTER @ SIZE_DOUBLE @ BOLD_ON
     @ (storeName d @ LINE_FEED) @ BOLD_OFF @ SIZE_NORMAL @ LINE_FEED
     @ ALIGN_LEFT @ (repeat (js ''-'') 48 @ LINE_FEED)
     @ (if truthy (customerName d) then js ''Customer: '' @ the (customerName d) @ LINE_FEED else [])
     @ (if truthy (customerPhone d) then js ''Phone: '' @ the (customerPhone d) @ LINE_FEED else [])
     @ (js ''Date: '' @ now @ LINE_FEED)
     @ (js ''Payment: '' @ paymentMethod d @ LINE_FEED)
     @ (repeat (js ''-'') 48 @ LINE_FEED)
     @ (padLine (js ''Item'') (js ''Qty'') (js ''Price'') (js ''Total'') @ LINE_FEED)
     @ (repeat (js ''-'') 48 @ LINE_FEED)
     @ concat (map (\<lambda>i. item_row eng (currency d) i @ LINE_FEED) (items d))
     @ (repeat (js ''-'') 48 @ LINE_FEED)
     @ ALIGN_RIGHT
     @ (js ''Subtotal: '' @ currency d @ toFixed2 eng (subtotal d) @ LINE_FEED)"

definition after_tax :: "engine \<Rightarrow> PrintData \<Rightarrow> jsstring" where
  "after_tax eng d =
     BOLD_ON
     @ (js ''TOTAL: '' @ currency d @ toFixed2 eng (grandTotal d) @ LINE_FEED)
     @ BOLD_OFF @ ALIGN_CENTER @ LINE_FEED
     @ (js ''Thank you for your business!'' @ LINE_FEED)
     @ LINE_FEED @ LINE_FEED @ CUT_PAPER"

text \<open>A step of the body appends to \<open>receipt\<close> a text read from the data, and changes
  nothing else.\<close>

definition appends :: "(fmt_state \<Rightarrow> fmt_state) \<Rightarrow> (PrintData \<Rightarrow> jsstring) \<Rightarrow> bool" where
  "appends f g = (\<forall>st. f st = emit (g (data st)) st)"

text \<open>A text without the letter \<open>x\<close> (code unit 0x78).\<close>

definition xfree :: "jsstring \<Rightarrow> bool" where
  "xfree s = (0x78 \<notin> set s)"

definition xfree_opt :: "jsstring option \<Rightarrow> bool" where
  "xfree_opt s = (case s of None \<Rightarrow> True | Some t \<Rightarrow> xfree t)"

subsection \<open>Concrete receipts\<close>

definition rupee :: jsstring where
  "rupee = [0x20B9]"

text \<open>An engine for inputs whose digits never come from the engine.\<close>

definition no_engine :: engine where
  "no_engine q = (0, 0)"

definition sample_now :: jsstring where
  "sample_now = js ''11/2/2026, 10:15:00 AM''"

text \<open>The sale of the specification's scenario. The doubles nearest to 16.2 and 106.2
  are \<open>4559894622712627 / 2^48\<close> and \<open>7473160631667917 / 2^46\<close>.\<close>

definition turmeric :: PrintItem where
  "turmeric = \<lparr>name = js ''Turmeric Powder'', quantity = Num 2, price = Num 45, total = Num 90\<rparr>"

definition turmeric_sale :: PrintData where
  "turmeric_sale =
     \<lparr>storeName = js ''Krushnkamal Masale'', customerName = None, customerPhone = None,
      items = [turmeric], subtotal = Num 90,
      tax = Num (4559894622712627 / 281474976710656),
      taxPercentage = Num 18,
      grandTotal = Num (7473160631667917 / 70368744177664),
      currency = rupee, paymentMethod = js ''cash''\<rparr>"

definition zero_tax_sale :: PrintData where
  "zero_tax_sale = turmeric_sale\<lparr>tax := Num 0, taxPercentage := Num 0, grandTotal := Num 90\<rparr>"

definition tax_free_mart :: PrintData where
  "tax_free_mart = zero_tax_sale\<lparr>storeName := js ''Tax Free Mart''\<rparr>"

text \<open>An item whose name has 30 characters; the 20th is the only \<open>x\<close>.\<close>

definition long_item :: PrintItem where
  "long_item = \<lparr>name = js ''Organic Turmeric Mix Powder 1k'', quantity = Num 2, price = Num 45,
     total = Num 90\<rparr>"

definition long_sale :: PrintData where
  "long_sale = zero_tax_sale\<lparr>items := [long_item]\<rparr>"

text \<open>An item whose quantity, price and total are wider than their columns.\<close>

definition wide_item :: PrintItem where
  "wide_item = \<lparr>name = js ''Organic Turmeric Mix'', quantity = Num 12345,
     price = Num 123456789, total = Num 123456789\<rparr>"

definition wide_sale :: PrintData where
  "wide_sale = zero_tax_sale\<lparr>items := [wide_item]\<rparr>"

subsection \<open>Traces\<close>

text \<open>The events a run added, the strategies it invoked (in order), their priority, the
  chunks written to the serial port (in order), and the events that are calls or logs
  (\<open>plain\<close>: not the entry or the settling of a strategy).\<close>

definition events_since :: "world \<Rightarrow> world \<Rightarrow> event list" where
  "events_since w w' = drop (length (trace w)) (trace w')"

fun invoked :: "event list \<Rightarrow> strategy list" where
  "invoked [] = []"
| "invoked (Invoke s # evs) = s # invoked evs"
| "invoked (e # evs) = invoked evs"


fun serial_chunks :: "event list \<Rightarrow> byte list list" where
  "serial_chunks [] = []"
| "serial_chunks (SerialWrite b # evs) = b # serial_chunks evs"
| "serial_chunks (e # evs) = serial_chunks evs"

fun plain :: "event \<Rightarrow> bool" where
  "plain (Invoke s) = False"
| "plain (Resolved s) = False"
| "plain (Rejected s e) = False"
| "plain e = True"

text \<open>An event that hands a payload to USB, a bridge or the network hands over \<open>p\<close>
  (as the string, or as its UTF-8 bytes); \<open>quiet\<close> events hand over nothing and write
  nothing to the serial port.\<close>

fun carries :: "jsstring \<Rightarrow> event \<Rightarrow> bool" where
  "carries p (UsbTransferOut n b) = (b = utf8_encode p)"
| "carries p (AndroidPrint s) = (s = p)"
| "carries p (AndroidIntentPrint s) = (s = p)"
| "carries p (ExternalPrint s) = (s = p)"
| "carries p (Fetch url s) = (s = p)"
| "carries p e = True"

fun delivery :: "event \<Rightarrow> bool" where
  "delivery (UsbTransferOut n b) = True"
| "delivery (AndroidPrint s) = True"
| "delivery (AndroidIntentPrint s) = True"
| "delivery (ExternalPrint s) = True"
| "delivery (Fetch url s) = True"
| "delivery e = False"

fun serial_write_event :: "event \<Rightarrow> bool" where
  "serial_write_event (SerialWrite b) = True"
| "serial_write_event e = False"

text \<open>The payload cut into chunks of \<open>n\<close>, the last one possibly shorter.\<close>

fun chop :: "nat \<Rightarrow> 'a list \<Rightarrow> 'a list list" where
  "chop n xs = (if n = 0 \<or> xs = [] then [] else take n xs # chop n (drop n xs))"

declare chop.simps [simp del]

section \<open>Vocabulary of the traces\<close>

text \<open>An action \<open>moves\<close> with \<open>P\<close> when all it does to the world is to add events
  satisfying \<open>P\<close> to the trace and to read the clock some number of times.\<close>

definition moves :: "(event \<Rightarrow> bool) \<Rightarrow> 'a io \<Rightarrow> bool" where
  "moves P m = (\<forall>w. \<exists>evs n. list_all P evs
       \<and> snd (m w) = w\<lparr>trace := trace w @ evs, clock_reads := clock_reads w + n\<rparr>)"

text \<open>The event that ends an attempt, and the events of one attempt: the invocation, what the
  strategy did, and how it settled.\<close>

definition settled :: "strategy \<Rightarrow> error + unit \<Rightarrow> event" where
  "settled s r = (case r of Inl e \<Rightarrow> Rejected s e | Inr u \<Rightarrow> Resolved s)"

definition segment :: "strategy \<Rightarrow> event list \<Rightarrow> error + unit \<Rightarrow> event list" where
  "segment s x r = Invoke s # x @ [settled s r]"

text \<open>The trace of the loop over the methods of \<open>printViaPOSCommand\<close>: the attempts in the
  order of the list, each failure followed by its \<open>console.log\<close>, up to the first attempt
  that resolves; the loop throws when the list is exhausted.\<close>

fun methods_shape :: "(event \<Rightarrow> bool) \<Rightarrow> strategy list \<Rightarrow> error + unit \<Rightarrow> event list \<Rightarrow> bool" where
  "methods_shape P [] r evs = (r = Inl AllPOSMethodsFailed \<and> evs = [])"
| "methods_shape P (s # ss) r evs =
     ((r = Inr () \<and> (\<exists>x. list_all P x \<and> evs = segment s x (Inr ())))
      \<or> (\<exists>x e rest. list_all P x \<and> evs = segment s x (Inl e) @ ConsoleLog_method e # rest
            \<and> methods_shape P ss r rest))"

text \<open>An action that does not read the clock.\<close>

definition quiet_clock :: "'a io \<Rightarrow> bool" where
  "quiet_clock m = (\<forall>w. clock_reads (snd (m w)) = clock_reads w)"

text \<open>The bodies of the three method functions, named so that each function is the attempt
  of its body.\<close>

definition usb_body :: "host \<Rightarrow> jsstring \<Rightarrow> unit io" where
  "usb_body h receiptData =
       (if \<not> usb_in_navigator h then throw WebUSBNotSupported
        else
          try_catch
            (block [
               call (UsbRequestDevice [0x04b8, 0x0519, 0x0dd4]) (usb_requestDevice h),
               call UsbOpen (usb_open h),
               call (UsbSelectConfiguration 1) (usb_selectConfiguration h),
               call (UsbClaimInterface 0) (usb_claimInterface h),
               call (UsbTransferOut 1 (utf8_encode receiptData))
                 (usb_transferOut h (utf8_encode receiptData)),
               call UsbClose (usb_close h)
             ])
            (\<lambda>error. throw (WebUSBPrintFailed error)))"

definition android_body :: "host \<Rightarrow> jsstring \<Rightarrow> unit io" where
  "android_body h receiptData =
       (if android_defined h then call (AndroidPrint receiptData) (android_print h receiptData)
        else if androidIntent_in_window h
          then call (AndroidIntentPrint receiptData) (androidIntent_print h receiptData)
        else throw AndroidNotAvailable)"

definition windows_body :: "host \<Rightarrow> jsstring \<Rightarrow> unit io" where
  "windows_body h receiptData =
       (if external_print_defined h
          then call (ExternalPrint receiptData) (external_print h receiptData)
        else throw WindowsNotAvailable)"

text \<open>The methods of \<open>printViaPOSCommand\<close>, in the order of its array.\<close>

definition pos_bodies :: "host \<Rightarrow> jsstring \<Rightarrow> (strategy \<times> unit io) list" where
  "pos_bodies h rd = [(WebUSB, usb_body h rd), (AndroidIntent, android_body h rd),
     (WindowsPrint, windows_body h rd), (RawSocket, fetch_loop h rd printerIPs)]"

text \<open>What a method of \<open>printViaPOSCommand\<close> may add to the trace when it is given the
  text \<open>p\<close>.\<close>

definition pos_event :: "jsstring \<Rightarrow> event \<Rightarrow> bool" where
  "pos_event p e = (plain e \<and> carries p e \<and> \<not> serial_write_event e)"

definition pos_strategies :: "strategy list" where
  "pos_strategies = [WebUSB, AndroidIntent, WindowsPrint, RawSocket]"

text \<open>The events of the loop over the chunks.\<close>

definition wc_event :: "event \<Rightarrow> bool" where
  "wc_event e = (serial_write_event e \<or> e = Sleep 10)"

text \<open>Among the chunks \<open>cs\<close> written from offset \<open>i\<close> on, only the last one can have been
  refused by the port, and then the result is the error \<open>err\<close>.\<close>

definition accepted_but_last :: "host \<Rightarrow> nat \<Rightarrow> byte list list \<Rightarrow> error + unit \<Rightarrow> error \<Rightarrow> bool" where
  "accepted_but_last h i cs r err =
     (\<forall>j < length cs. \<not> serial_write h (i + chunkSize * j) (cs ! j) \<longrightarrow>
        Suc j = length cs \<and> r = Inl err)"

text \<open>What one run of the loop over the chunks, from offset \<open>i\<close> of the array \<open>a\<close>, leaves in
  the trace.\<close>

definition wc_facts :: "host \<Rightarrow> byte list \<Rightarrow> nat \<Rightarrow> error + unit \<Rightarrow> event list \<Rightarrow> bool" where
  "wc_facts h a i r evs =
     (list_all wc_event evs
      \<and> prefix (serial_chunks evs) (chop chunkSize (drop i a))
      \<and> (r = Inr () \<longrightarrow> serial_chunks evs = chop chunkSize (drop i a))
      \<and> (\<forall>e. r = Inl e \<longrightarrow> e = HostError)
      \<and> accepted_but_last h i (serial_chunks evs) r HostError)"

text \<open>An event that hands no receipt to anything: neither a delivery nor a serial write.\<close>

definition quiet_event :: "event \<Rightarrow> bool" where
  "quiet_event e = (plain e \<and> \<not> delivery e \<and> \<not> serial_write_event e)"

text \<open>The body of \<open>printViaSerial\<close> in three parts: what precedes the formatting, the
  formatting with the loop over the chunks, and what follows.\<close>

definition serial_pre :: "host \<Rightarrow> unit io" where
  "serial_pre h = block [call SerialRequestPort (serial_requestPort h), connect h baudRates,
     call SerialGetWriter (serial_getWriter h)]"

definition serial_post :: "host \<Rightarrow> unit io" where
  "serial_post h = block [call SerialReleaseLock (serial_releaseLock h),
     call SerialClose (serial_close h)]"

definition serial_send :: "host \<Rightarrow> PrintData \<Rightarrow> unit io" where
  "serial_send h d = bind (formatReceipt_now h d) (\<lambda>receiptData.
               write_chunks h (utf8_encode receiptData) 0)"

definition serial_inner :: "host \<Rightarrow> PrintData \<Rightarrow> unit io" where
  "serial_inner h d = bind (serial_pre h) (\<lambda>u. bind (serial_send h d) (\<lambda>u. serial_post h))"

text \<open>What one run of the body of \<open>printViaSerial\<close> leaves in the trace when the receipt it
  formats is \<open>p\<close>.\<close>

definition serial_facts :: "host \<Rightarrow> jsstring \<Rightarrow> error + unit \<Rightarrow> event list \<Rightarrow> bool" where
  "serial_facts h p r x =
     (list_all (\<lambda>e. plain e \<and> \<not> delivery e) x
      \<and> prefix (serial_chunks x) (chop chunkSize (utf8_encode p))
      \<and> (r = Inr () \<longrightarrow> serial_chunks x = chop chunkSize (utf8_encode p))
      \<and> (\<forall>e. r = Inl e \<longrightarrow> (\<exists>e'. e = SerialPrintingFailed e'))
      \<and> accepted_but_last h 0 (serial_chunks x) r (SerialPrintingFailed HostError))"

text \<open>The hosts on which \<open>printViaBrowser\<close> throws: \<open>window.open\<close> throws, or there is a
  window and writing to its document or closing it throws. A host that returns no window
  is not among them.\<close>

definition browser_throws :: "host \<Rightarrow> jsstring \<Rightarrow> PrintData \<Rightarrow> bool" where
  "browser_throws h now d =
     (window_open h = OpenThrows
      \<or> window_open h = OpenWindow \<and> (\<not> document_write h now d \<or> \<not> document_close h))"

text \<open>A trace in which no attempt resolved, and a trace that ends with the only resolution in
  it.\<close>

definition unresolved :: "event list \<Rightarrow> bool" where
  "unresolved evs = (\<forall>s. Resolved s \<notin> set evs)"

definition ends_resolved :: "event list \<Rightarrow> bool" where
  "ends_resolved evs = (\<exists>pre s. evs = pre @ [Resolved s] \<and> unresolved pre)"

section \<open>Hosts of the scenarios\<close>

text \<open>The world before a run.\<close>

definition start :: world where
  "start = \<lparr>trace = [], clock_reads = 0\<rparr>"

text \<open>A later reading of the clock.\<close>

definition later_now :: jsstring where
  "later_now = js ''11/2/2026, 10:15:07 AM''"

text \<open>A host with no USB, no bridge, no serial port, a network that rejects every request, and
  a \<open>window.open\<close> that returns \<open>null\<close>.\<close>

definition dead_host :: host where
  "dead_host =
     \<lparr>number_engine = no_engine, toLocaleString = (\<lambda>k. sample_now),
      usb_in_navigator = False, usb_requestDevice = False, usb_open = False,
      usb_selectConfiguration = False, usb_claimInterface = False,
      usb_transferOut = (\<lambda>b. False), usb_close = False,
      android_defined = False, android_print = (\<lambda>s. False),
      androidIntent_in_window = False, androidIntent_print = (\<lambda>s. False),
      external_print_defined = False, external_print = (\<lambda>s. False),
      fetch = (\<lambda>url body. FetchRejected),
      serial_in_navigator = False, serial_requestPort = False, serial_open = (\<lambda>b. False),
      serial_getWriter = False, serial_write = (\<lambda>i c. False), serial_releaseLock = False,
      serial_close = False,
      window_open = OpenNull, document_write = (\<lambda>now d. False), document_close = False\<rparr>"

text \<open>The same host with a \<open>window.open\<close> that throws.\<close>

definition throwing_host :: host where
  "throwing_host = dead_host\<lparr>window_open := OpenThrows\<rparr>"






text \<open>The bytes that \<open>printViaSerial\<close>, entered in the world \<open>w\<close>, formats and encodes.\<close>

definition serial_payload :: "host \<Rightarrow> PrintData \<Rightarrow> world \<Rightarrow> byte list" where
  "serial_payload h d w =
     utf8_encode (formatReceipt (number_engine h) (toLocaleString h (clock_reads w)) d)"

text \<open>The events of writing the array \<open>a\<close> to a port that accepts every chunk, with \<open>chop\<close>
  as the description of the chunks.\<close>

definition writes :: "byte list \<Rightarrow> event list" where
  "writes a = concat (map (\<lambda>c. [SerialWrite c, Sleep 10]) (chop chunkSize a))"

text \<open>Hosts whose only working device is a serial port that opens at 115200 baud, with a
  given clock and a given behaviour of \<open>writer.write\<close>: a port that accepts everything
  while the clock advances between two readings, the same with a clock that stands still,
  and a port that refuses the chunk at offset 64.\<close>

definition serial_host_with :: "(nat \<Rightarrow> jsstring) \<Rightarrow> (nat \<Rightarrow> byte list \<Rightarrow> bool) \<Rightarrow> host" where
  "serial_host_with clock accepts =
     dead_host\<lparr>toLocaleString := clock,
       serial_in_navigator := True, serial_requestPort := True,
       serial_open := (\<lambda>baudRate. baudRate = 115200), serial_getWriter := True,
       serial_write := accepts, serial_releaseLock := True, serial_close := True\<rparr>"

definition serial_host :: host where
  "serial_host = serial_host_with (\<lambda>k. if k = 0 then sample_now else later_now) (\<lambda>i c. True)"

definition steady_host :: host where
  "steady_host = serial_host_with (\<lambda>k. sample_now) (\<lambda>i c. True)"

definition flaky_host :: host where
  "flaky_host = serial_host_with (\<lambda>k. sample_now) (\<lambda>i c. i \<noteq> 64)"

text \<open>The receipt formatted with the \<open>k\<close>-th reading of the clock.\<close>

definition receipt_at :: "host \<Rightarrow> PrintData \<Rightarrow> nat \<Rightarrow> jsstring" where
  "receipt_at h d k = formatReceipt (number_engine h) (toLocaleString h k) d"

section \<open>Properties of the formatter\<close>

subsection \<open>Column fitting\<close>

lemma length_substring0: "length (substring s 0 n) = min n (length s)"
  by (simp add: substring_def min_def)

lemma length_padEnd: "length (padEnd s n) = max n (length s)"
  by (simp add: padEnd_def max_def)

lemma length_padStart: "length (padStart s n) = max n (length s)"
  by (simp add: padStart_def max_def)

lemma fit_left: "length (substring (padEnd s n) 0 n) = n"
  by (simp add: length_substring0 length_padEnd)

lemma fit_right: "length (substring (padStart s n) 0 n) = n"
  by (simp add: length_substring0 length_padStart)

lemma fit_left_long: "n \<le> length s \<Longrightarrow> substring (padEnd s n) 0 n = take n s"
  by (simp add: substring_def padEnd_def)

lemma fit_right_long: "n \<le> length s \<Longrightarrow> substring (padStart s n) 0 n = take n s"
  by (simp add: substring_def padStart_def)

text \<open>
  C6: whatever the four strings are, the row \<open>padLine\<close> returns is exactly
  16 + 4 + 10 + 10 = 40 code units long.
\<close>

theorem padLine_length:
  "length (padLine col1 col2 col3 col4) = col1Width + col2Width + col3Width + col4Width
   \<and> col1Width + col2Width + col3Width + col4Width = 40"
  by (simp add: padLine_def fit_left fit_right)
     (simp add: col1Width_def col2Width_def col3Width_def col4Width_def)

lemma padLine_columns:
  "take 16 (padLine c1 c2 c3 c4) = substring (padEnd c1 16) 0 16"
  "take 4 (drop 16 (padLine c1 c2 c3 c4)) = substring (padStart c2 4) 0 4"
  "take 10 (drop 20 (padLine c1 c2 c3 c4)) = substring (padStart c3 10) 0 10"
  "drop 30 (padLine c1 c2 c3 c4) = substring (padStart c4 10) 0 10"
  by (simp_all add: padLine_def fit_left fit_right
      col1Width_def col2Width_def col3Width_def col4Width_def)

subsection \<open>The text of a receipt\<close>

lemma appends_emit: "appends (emit s) (\<lambda>d. s)"
  by (simp add: appends_def)

lemma appends_read: "appends (\<lambda>st. emit (h (data st)) st) h"
  by (simp add: appends_def)

lemma appends_if:
  "appends (\<lambda>st. if c (data st) then emit (h (data st)) st else st) (\<lambda>d. if c d then h d else [])"
  by (simp add: appends_def emit_def)

lemma item_step_eq:
  "item_step eng item st = emit (item_row eng (currency (data st)) item @ LINE_FEED) st"
  by (simp add: item_step_def item_row_def Let_def)

lemma fold_item_step:
  "fold (item_step eng) its st =
     emit (concat (map (\<lambda>i. item_row eng (currency (data st)) i @ LINE_FEED) its)) st"
  by (induction its arbitrary: st) (simp_all add: item_step_eq emit_def)

lemma appends_items:
  "appends (\<lambda>st. fold (item_step eng) (items (data st)) st)
     (\<lambda>d. concat (map (\<lambda>i. item_row eng (currency d) i @ LINE_FEED) (items d)))"
  by (simp add: appends_def fold_item_step)

lemma appends_run_Nil: "appends (run []) (\<lambda>d. [])"
  by (simp add: appends_def run_def emit_def)

lemma appends_run_Cons:
  "appends f g \<Longrightarrow> appends (run fs) gs \<Longrightarrow> appends (run (f # fs)) (\<lambda>d. g d @ gs d)"
  by (simp add: appends_def run_def emit_def)

lemma appends_formatReceipt_body:
  "appends (formatReceipt_body eng now) (receipt_text eng now)"
  unfolding formatReceipt_body_def receipt_text_def tax_line_def
  by (intro appends_run_Cons appends_run_Nil appends_emit appends_read appends_if appends_items)

lemma formatReceipt_eq: "formatReceipt eng now d = receipt_text eng now d"
  using appends_formatReceipt_body [of eng now]
  by (simp add: formatReceipt_def appends_def emit_def)

text \<open>
  C9: with the timestamp given as the parameter \<open>now\<close>, formatting is a function of the
  receipt, the timestamp and the number rendering alone: run on any state, the body
  leaves the receipt object (every field, every item and item name) as it was, and
  appends to \<open>receipt\<close> exactly \<open>formatReceipt eng now\<close> of that object, whatever was
  accumulated before: two calls on the same receipt with the same clock value return the
  same text.
\<close>

theorem formatReceipt_pure:
  "data (formatReceipt_body eng now st) = data st
   \<and> receipt (formatReceipt_body eng now st) = receipt st @ formatReceipt eng now (data st)"
  using appends_formatReceipt_body [of eng now]
  by (simp add: appends_def emit_def formatReceipt_eq)

subsection \<open>Lines contained in the text\<close>

lemma sub_here: "sublist X (X @ ss)"
  using sublist_appendI [of X "[]" ss] by simp

lemma sub_skip: "sublist X ys \<Longrightarrow> sublist X (p @ ys)"
proof -
  assume "sublist X ys"
  then obtain ps ss where "ys = ps @ X @ ss" by (auto simp: sublist_def)
  then have "p @ ys = (p @ ps) @ X @ ss" by simp
  then show ?thesis unfolding sublist_def by blast
qed

lemma sublist_item_line:
  "item \<in> set its \<Longrightarrow> sublist (f item) (concat (map f its))"
proof (induction its)
  case Nil
  then show ?case by simp
next
  case (Cons a its)
  show ?case
  proof (cases "item = a")
    case True
    then show ?thesis by (simp add: sub_here)
  next
    case False
    with Cons show ?thesis by (simp add: sub_skip)
  qed
qed

lemma rows_in_receipt:
  "sublist (concat (map (\<lambda>i. item_row eng (currency d) i @ LINE_FEED) (items d)))
     (formatReceipt eng now d)"
  unfolding formatReceipt_eq receipt_text_def
  by (rule sub_here | rule sub_skip)+

lemma item_line_in_receipt:
  assumes "item \<in> set (items d)"
  shows "sublist (item_row eng (currency d) item @ LINE_FEED) (formatReceipt eng now d)"
proof -
  have "sublist (item_row eng (currency d) item @ LINE_FEED)
          (concat (map (\<lambda>i. item_row eng (currency d) i @ LINE_FEED) (items d)))"
    using assms by (rule sublist_item_line)
  then show ?thesis
    using rows_in_receipt by (rule sublist_order.order_trans)
qed

lemma store_name_in_receipt:
  "sublist (storeName d @ LINE_FEED) (formatReceipt eng now d)"
  unfolding formatReceipt_eq receipt_text_def
  by (rule sub_here | rule sub_skip)+

lemma tax_line_in_receipt:
  "gt0 (taxPercentage d) \<Longrightarrow> sublist (tax_line eng d) (formatReceipt eng now d)"
  unfolding formatReceipt_eq receipt_text_def
  by (simp only: if_True) ((rule sub_here | rule sub_skip)+)

lemma total_line_in_receipt:
  "sublist (js ''TOTAL: '' @ currency d @ toFixed2 eng (grandTotal d) @ LINE_FEED)
     (formatReceipt eng now d)"
  unfolding formatReceipt_eq receipt_text_def
  by (rule sub_here | rule sub_skip)+

subsection \<open>Rendering concrete numbers\<close>

lemma digits_small: "n < 10 \<Longrightarrow> digits n = [digit n]"
  by (subst digits.simps) simp

lemma digits_large: "10 \<le> n \<Longrightarrow> digits n = digits (n div 10) @ [digit (n mod 10)]"
  by (subst digits.simps) simp

lemma floor_numeral_div: "\<lfloor>(numeral a :: rat) / numeral b\<rfloor> = numeral a div numeral b"
  using floor_divide_of_int_eq [of "numeral a" "numeral b", where 'a = rat] by simp

lemma toFixed2_value:
  assumes "0 \<le> q" "q < 10 ^ 21" "nat \<lfloor>q * 100 + 1 / 2\<rfloor> = n" "digits n = m" "2 < length m"
  shows "toFixed2 eng (Num q) = take (length m - 2) m @ js ''.'' @ drop (length m - 2) m"
  using assms by (simp add: toFixed2_def Let_def)

lemma toString_value:
  assumes "0 < q" "q < 2 ^ 53" "of_int \<lfloor>q\<rfloor> = q" "digits (nat \<lfloor>q\<rfloor>) = m"
  shows "Number_toString eng (Num q) = m"
  using assms by (simp add: Number_toString_def positive_toString_def)

lemmas render = digits_small digits_large digit_def js_def floor_numeral_div

lemma fixed_45: "toFixed2 eng (Num 45) = js ''45.00''"
  by (rule trans [OF toFixed2_value [where n = 4500 and m = "js ''4500''"]]) (simp_all add: render)

lemma fixed_90: "toFixed2 eng (Num 90) = js ''90.00''"
  by (rule trans [OF toFixed2_value [where n = 9000 and m = "js ''9000''"]]) (simp_all add: render)

lemma fixed_16_2: "toFixed2 eng (Num (4559894622712627 / 281474976710656)) = js ''16.20''"
  by (rule trans [OF toFixed2_value [where n = 1620 and m = "js ''1620''"]]) (simp_all add: render)

lemma fixed_106_2: "toFixed2 eng (Num (7473160631667917 / 70368744177664)) = js ''106.20''"
  by (rule trans [OF toFixed2_value [where n = 10620 and m = "js ''10620''"]])
     (simp_all add: render)

lemma string_2: "Number_toString eng (Num 2) = js ''2''"
  by (rule trans [OF toString_value [where m = "js ''2''"]]) (simp_all add: render)

lemma string_18: "Number_toString eng (Num 18) = js ''18''"
  by (rule trans [OF toString_value [where m = "js ''18''"]]) (simp_all add: render)

lemma replicate_num: "replicate (numeral k) x = x # replicate (pred_numeral k) x"
  by (simp add: numeral_eq_Suc)

lemmas layout = padLine_def substring_def padEnd_def padStart_def js_def rupee_def space_def
  col1Width_def col2Width_def col3Width_def col4Width_def replicate_num

lemma turmeric_row:
  "item_row eng rupee turmeric =
     js ''Turmeric Powder    2    '' @ rupee @ js ''45.00    '' @ rupee @ js ''90.00''"
  unfolding item_row_def turmeric_def
  by (simp add: fixed_45 fixed_90 string_2) (simp add: layout)

lemma turmeric_tax_line:
  "tax_line eng turmeric_sale = js ''Tax (18%): '' @ rupee @ js ''16.20'' @ LF"
  by (simp add: tax_line_def turmeric_sale_def fixed_16_2 string_18 LINE_FEED_def)
     (simp add: js_def)

text \<open>
  C7: for the sale of the scenario (Krushnkamal Masale, two Turmeric Powder at 45.0,
  subtotal 90.0, tax 16.2 at 18 percent, total 106.2, currency the rupee sign, paid in
  cash), whatever the timestamp, the text contains the row of Turmeric Powder with the
  quantity 2, the line \<open>Tax (18%): \<close> with the rupee sign and 16.20, and the line
  \<open>TOTAL: \<close> with the rupee sign and 106.20.
\<close>

theorem turmeric_receipt:
  "sublist (js ''Turmeric Powder    2    '' @ rupee @ js ''45.00    '' @ rupee @ js ''90.00'' @ LF)
     (formatReceipt eng now turmeric_sale)
   \<and> sublist (js ''Tax (18%): '' @ rupee @ js ''16.20'' @ LF) (formatReceipt eng now turmeric_sale)
   \<and> sublist (js ''TOTAL: '' @ rupee @ js ''106.20'' @ LF) (formatReceipt eng now turmeric_sale)"
proof (intro conjI)
  have cur: "currency turmeric_sale = rupee"
    by (simp add: turmeric_sale_def)
  have tot: "toFixed2 eng (grandTotal turmeric_sale) = js ''106.20''"
    by (simp add: turmeric_sale_def fixed_106_2)
  have "turmeric \<in> set (items turmeric_sale)"
    by (simp add: turmeric_sale_def)
  from item_line_in_receipt [OF this, of eng now]
  show "sublist (js ''Turmeric Powder    2    '' @ rupee @ js ''45.00    '' @ rupee @ js ''90.00'' @ LF)
     (formatReceipt eng now turmeric_sale)"
    by (simp add: turmeric_row LINE_FEED_def cur)
  have "gt0 (taxPercentage turmeric_sale)"
    by (simp add: turmeric_sale_def gt0_def)
  from tax_line_in_receipt [OF this, of eng now]
  show "sublist (js ''Tax (18%): '' @ rupee @ js ''16.20'' @ LF) (formatReceipt eng now turmeric_sale)"
    by (simp add: turmeric_tax_line)
  from total_line_in_receipt [of turmeric_sale eng now]
  show "sublist (js ''TOTAL: '' @ rupee @ js ''106.20'' @ LF) (formatReceipt eng now turmeric_sale)"
    by (simp add: tot LINE_FEED_def cur)
qed

subsection \<open>Texts without the letter x\<close>

lemma xfree_append [simp]: "xfree (a @ b) = (xfree a \<and> xfree b)"
  by (auto simp: xfree_def)

lemma xfree_Nil [simp]: "xfree []"
  by (simp add: xfree_def)

lemma xfree_Cons [simp]: "xfree (c # s) = (c \<noteq> 0x78 \<and> xfree s)"
  by (auto simp: xfree_def)

lemma xfree_take: "xfree s \<Longrightarrow> xfree (take n s)"
  by (auto simp: xfree_def dest: in_set_takeD)

lemma xfree_drop: "xfree s \<Longrightarrow> xfree (drop n s)"
  by (auto simp: xfree_def dest: in_set_dropD)

lemma xfree_replicate_space [simp]: "xfree (replicate n space)"
  by (simp add: xfree_def space_def)

lemma digit_not_x: "d < 10 \<Longrightarrow> digit d \<noteq> 0x78"
proof -
  assume "d < 10"
  then have "d \<in> {0, 1, 2, 3, 4, 5, 6, 7, 8, 9}" by auto
  then show ?thesis by (auto simp: digit_def)
qed

lemma xfree_digits: "xfree (digits n)"
proof (induction n rule: digits.induct)
  case (1 n)
  show ?case
  proof (cases "n < 10")
    case True
    then show ?thesis by (simp add: digits_small digit_not_x)
  next
    case False
    with 1 have "xfree (digits (n div 10))" by simp
    moreover have "digit (n mod 10) \<noteq> 0x78" by (rule digit_not_x) simp
    ultimately show ?thesis using False by (simp add: digits_large)
  qed
qed

lemma xfree_js_lits [simp]:
  "xfree (js ''.'')" "xfree (js ''0.'')" "xfree (js ''-'')" "xfree (js ''+'')" "xfree (js ''e'')"
  "xfree (js ''NaN'')" "xfree (js ''Infinity'')" "xfree (js ''-Infinity'')" "xfree (js ''0'')"
  by (simp_all add: js_def)

lemma xfree_replicate_digit [simp]: "xfree (replicate n (digit 0))"
  by (simp add: xfree_def digit_def)

lemma xfree_positive_toString: "xfree (positive_toString eng q)"
  by (simp add: positive_toString_def Let_def xfree_digits xfree_take xfree_drop split: prod.split)

lemma xfree_Number_toString: "xfree (Number_toString eng x)"
  by (simp add: Number_toString_def xfree_positive_toString split: jsnumber.split)

lemma xfree_toFixed2: "xfree (toFixed2 eng x)"
  by (simp add: toFixed2_def Let_def xfree_positive_toString xfree_Number_toString xfree_digits
      xfree_take xfree_drop split: jsnumber.split)

lemma xfree_fit_left: "xfree (take n s) \<Longrightarrow> xfree (substring (padEnd s n) 0 n)"
proof (cases "n \<le> length s")
  case True
  assume "xfree (take n s)"
  with True show ?thesis by (simp add: substring_def padEnd_def)
next
  case False
  assume "xfree (take n s)"
  moreover from False have "take n s = s" by simp
  ultimately show ?thesis using False by (simp add: substring_def padEnd_def xfree_take)
qed

lemma xfree_fit_right: "xfree s \<Longrightarrow> xfree (substring (padStart s n) 0 n)"
  by (simp add: substring_def padStart_def xfree_take)

lemma xfree_padLine:
  "xfree (take 16 a) \<Longrightarrow> xfree b \<Longrightarrow> xfree c \<Longrightarrow> xfree d \<Longrightarrow> xfree (padLine a b c d)"
  by (simp add: padLine_def xfree_fit_left xfree_fit_right col1Width_def)

lemma xfree_fixed [simp]:
  "xfree INIT" "xfree ESC" "xfree ALIGN_CENTER" "xfree ALIGN_LEFT" "xfree ALIGN_RIGHT"
  "xfree BOLD_ON" "xfree BOLD_OFF" "xfree SIZE_NORMAL" "xfree SIZE_DOUBLE" "xfree CUT_PAPER"
  "xfree LINE_FEED" "xfree (js ''@'')" "xfree (js ''Customer: '')" "xfree (js ''Phone: '')"
  "xfree (js ''Date: '')" "xfree (js ''Payment: '')" "xfree (js ''Subtotal: '')"
  "xfree (js ''TOTAL: '')" "xfree (js ''Thank you for your business!'')"
  "xfree (js ''Item'')" "xfree (js ''Qty'')" "xfree (js ''Price'')" "xfree (js ''Total'')"
  by (simp_all add: js_def INIT_def ESC_def GS_def LF_def LINE_FEED_def ALIGN_CENTER_def
      ALIGN_LEFT_def ALIGN_RIGHT_def BOLD_ON_def BOLD_OFF_def SIZE_NORMAL_def SIZE_DOUBLE_def
      CUT_PAPER_def)

lemma xfree_header: "xfree (padLine (js ''Item'') (js ''Qty'') (js ''Price'') (js ''Total''))"
  by (simp add: xfree_padLine xfree_take)

lemma xfree_dashes [simp]: "xfree (repeat (js ''-'') n)"
  by (induction n) (simp_all add: repeat_def)

lemma xfree_item_row:
  "xfree cur \<Longrightarrow> xfree (substring (name item) 0 16) \<Longrightarrow> xfree (item_row eng cur item)"
  by (simp add: item_row_def xfree_padLine substring_def xfree_Number_toString xfree_toFixed2
      min_def)

lemma xfree_rows:
  "xfree cur \<Longrightarrow> (\<forall>i \<in> set its. xfree (substring (name i) 0 16)) \<Longrightarrow>
   xfree (concat (map (\<lambda>i. item_row eng cur i @ LINE_FEED) its))"
  by (induction its) (simp_all add: xfree_item_row)

lemma xfree_receipt:
  assumes "\<not> gt0 (taxPercentage d)" "xfree now" "xfree (storeName d)" "xfree_opt (customerName d)"
    "xfree_opt (customerPhone d)" "xfree (paymentMethod d)" "xfree (currency d)"
    "\<forall>i \<in> set (items d). xfree (substring (name i) 0 16)"
  shows "xfree (formatReceipt eng now d)"
  using assms
  by (auto simp: formatReceipt_eq receipt_text_def xfree_rows xfree_toFixed2 xfree_header
      xfree_opt_def truthy_def split: option.splits)

lemma no_Tax: "xfree s \<Longrightarrow> \<not> sublist (js ''Tax'') s"
proof
  assume a: "xfree s" and b: "sublist (js ''Tax'') s"
  have "set (js ''Tax'') \<subseteq> set s" using b by (rule set_mono_sublist)
  moreover have "0x78 \<in> set (js ''Tax'')" by (simp add: js_def)
  ultimately show False using a by (auto simp: xfree_def)
qed

lemma xfree_zero_tax_sale:
  "\<not> gt0 (taxPercentage zero_tax_sale)" "xfree sample_now" "xfree (storeName zero_tax_sale)"
  "xfree_opt (customerName zero_tax_sale)" "xfree_opt (customerPhone zero_tax_sale)"
  "xfree (paymentMethod zero_tax_sale)" "xfree (currency zero_tax_sale)"
  by (simp_all add: zero_tax_sale_def turmeric_sale_def gt0_def sample_now_def js_def rupee_def
      xfree_opt_def)

subsection \<open>The tax line\<close>

text \<open>
  C5, as stated, fails: with a tax percentage of 0 the text still contains \<open>Tax\<close>
  when a string of the caller contains it, here the store name \<open>Tax Free Mart\<close>.
\<close>

theorem tax_free_mart_has_Tax:
  "\<not> gt0 (taxPercentage tax_free_mart)
   \<and> sublist (js ''Tax'') (formatReceipt no_engine sample_now tax_free_mart)"
proof
  show "\<not> gt0 (taxPercentage tax_free_mart)"
    by (simp add: tax_free_mart_def zero_tax_sale_def gt0_def)
  have "js ''Tax Free Mart'' @ LINE_FEED = js ''Tax'' @ js '' Free Mart'' @ LINE_FEED"
    by (simp add: js_def)
  then have "sublist (js ''Tax'') (storeName tax_free_mart @ LINE_FEED)"
    by (simp add: tax_free_mart_def sub_here)
  then show "sublist (js ''Tax'') (formatReceipt no_engine sample_now tax_free_mart)"
    using store_name_in_receipt by (rule sublist_order.order_trans)
qed

lemma receipt_around_tax:
  "formatReceipt eng now d =
     before_tax eng now d @ (if gt0 (taxPercentage d) then tax_line eng d else [])
       @ after_tax eng d"
  by (simp add: formatReceipt_eq receipt_text_def before_tax_def after_tax_def)

lemma tax_fields_unread:
  "before_tax eng now (d\<lparr>tax := t, taxPercentage := p\<rparr>) = before_tax eng now d"
  "after_tax eng (d\<lparr>tax := t, taxPercentage := p\<rparr>) = after_tax eng d"
  by (simp_all add: before_tax_def after_tax_def)

text \<open>
  C5, amended: the text of a receipt is the text up to the subtotal line, then the tax
  line, then the text from the bold total on; the first and the last do not depend on
  \<open>tax\<close> or \<open>taxPercentage\<close>. The tax line, \<open>Tax (p%): \<close> followed by the currency, the
  tax with two decimals and a line feed, is emitted there when \<open>taxPercentage > 0\<close>.
  When \<open>taxPercentage\<close> is not above 0 (zero, negative or \<open>NaN\<close>) nothing is emitted
  between the subtotal line and the total: no tax line is emitted, whatever the strings
  of the caller are. \<open>Tax\<close> can then only come from the caller's own strings: if the
  letter \<open>x\<close> is in none of the store name, the customer's name and phone, the payment
  method, the currency, the first 16 code units of the item names and the timestamp, the
  text contains no \<open>Tax\<close>.
\<close>

theorem tax_line_iff_positive:
  "(gt0 (taxPercentage d) \<longrightarrow>
      sublist (tax_line eng d) (formatReceipt eng now d)
      \<and> formatReceipt eng now d = before_tax eng now d @ tax_line eng d @ after_tax eng d)
   \<and> (\<not> gt0 (taxPercentage d) \<longrightarrow>
      formatReceipt eng now d = before_tax eng now d @ after_tax eng d)
   \<and> before_tax eng now (d\<lparr>tax := t, taxPercentage := p\<rparr>) = before_tax eng now d
   \<and> after_tax eng (d\<lparr>tax := t, taxPercentage := p\<rparr>) = after_tax eng d
   \<and> (\<not> gt0 (taxPercentage d) \<and> xfree now \<and> xfree (storeName d) \<and> xfree_opt (customerName d)
        \<and> xfree_opt (customerPhone d) \<and> xfree (paymentMethod d) \<and> xfree (currency d)
        \<and> (\<forall>i \<in> set (items d). xfree (substring (name i) 0 16))
      \<longrightarrow> \<not> sublist (js ''Tax'') (formatReceipt eng now d))"
proof (intro conjI impI)
  assume "gt0 (taxPercentage d)"
  then show "sublist (tax_line eng d) (formatReceipt eng now d)"
    by (rule tax_line_in_receipt)
  from \<open>gt0 (taxPercentage d)\<close>
  show "formatReceipt eng now d = before_tax eng now d @ tax_line eng d @ after_tax eng d"
    by (simp add: receipt_around_tax)
next
  assume "\<not> gt0 (taxPercentage d)"
  then show "formatReceipt eng now d = before_tax eng now d @ after_tax eng d"
    by (simp add: receipt_around_tax)
next
  show "before_tax eng now (d\<lparr>tax := t, taxPercentage := p\<rparr>) = before_tax eng now d"
    by (rule tax_fields_unread)
  show "after_tax eng (d\<lparr>tax := t, taxPercentage := p\<rparr>) = after_tax eng d"
    by (rule tax_fields_unread)
next
  assume "\<not> gt0 (taxPercentage d) \<and> xfree now \<and> xfree (storeName d) \<and> xfree_opt (customerName d)
        \<and> xfree_opt (customerPhone d) \<and> xfree (paymentMethod d) \<and> xfree (currency d)
        \<and> (\<forall>i \<in> set (items d). xfree (substring (name i) 0 16))"
  then show "\<not> sublist (js ''Tax'') (formatReceipt eng now d)"
    using xfree_receipt [of d now eng] no_Tax by blast
qed

theorem tax_line_iff_positive_witness:
  "gt0 (taxPercentage turmeric_sale)
   \<and> sublist (tax_line no_engine turmeric_sale) (formatReceipt no_engine sample_now turmeric_sale)
   \<and> formatReceipt no_engine sample_now turmeric_sale =
       before_tax no_engine sample_now turmeric_sale
         @ (js ''Tax (18%): '' @ rupee @ js ''16.20'' @ LF)
         @ after_tax no_engine turmeric_sale
   \<and> \<not> gt0 (taxPercentage zero_tax_sale)
   \<and> formatReceipt no_engine sample_now zero_tax_sale =
       before_tax no_engine sample_now zero_tax_sale @ after_tax no_engine zero_tax_sale
   \<and> \<not> gt0 (taxPercentage tax_free_mart)
   \<and> formatReceipt no_engine sample_now tax_free_mart =
       before_tax no_engine sample_now tax_free_mart @ after_tax no_engine tax_free_mart
   \<and> \<not> sublist (js ''Tax'') (formatReceipt no_engine sample_now zero_tax_sale)"
proof -
  have pos: "gt0 (taxPercentage turmeric_sale)"
    by (simp add: turmeric_sale_def gt0_def)
  have zero: "\<not> gt0 (taxPercentage zero_tax_sale)"
    by (rule xfree_zero_tax_sale(1))
  have mart: "\<not> gt0 (taxPercentage tax_free_mart)"
    by (simp add: tax_free_mart_def zero_tax_sale_def gt0_def)
  note t = tax_line_iff_positive [of turmeric_sale no_engine sample_now]
  note z = tax_line_iff_positive [of zero_tax_sale no_engine sample_now]
  note m = tax_line_iff_positive [of tax_free_mart no_engine sample_now]
  from t pos have t1: "sublist (tax_line no_engine turmeric_sale)
      (formatReceipt no_engine sample_now turmeric_sale)"
    by blast
  from t pos have "formatReceipt no_engine sample_now turmeric_sale =
       before_tax no_engine sample_now turmeric_sale @ tax_line no_engine turmeric_sale
         @ after_tax no_engine turmeric_sale"
    by blast
  then have t2: "formatReceipt no_engine sample_now turmeric_sale =
       before_tax no_engine sample_now turmeric_sale
         @ (js ''Tax (18%): '' @ rupee @ js ''16.20'' @ LF)
         @ after_tax no_engine turmeric_sale"
    by (simp only: turmeric_tax_line)
  from z zero have z1: "formatReceipt no_engine sample_now zero_tax_sale =
       before_tax no_engine sample_now zero_tax_sale @ after_tax no_engine zero_tax_sale"
    by blast
  from m mart have m1: "formatReceipt no_engine sample_now tax_free_mart =
       before_tax no_engine sample_now tax_free_mart @ after_tax no_engine tax_free_mart"
    by blast
  have "\<forall>i \<in> set (items zero_tax_sale). xfree (substring (name i) 0 16)"
    by (simp add: zero_tax_sale_def turmeric_sale_def turmeric_def substring_def js_def)
  with xfree_zero_tax_sale z
  have z2: "\<not> sublist (js ''Tax'') (formatReceipt no_engine sample_now zero_tax_sale)"
    by blast
  from pos t1 t2 zero z1 mart m1 z2 show ?thesis by blast
qed

subsection \<open>The name column\<close>

lemma xfree_long_sale:
  "\<not> gt0 (taxPercentage long_sale)" "xfree (storeName long_sale)"
  "xfree_opt (customerName long_sale)" "xfree_opt (customerPhone long_sale)"
  "xfree (paymentMethod long_sale)" "xfree (currency long_sale)"
  "\<forall>i \<in> set (items long_sale). xfree (substring (name i) 0 16)"
  by (simp_all add: long_sale_def long_item_def zero_tax_sale_def turmeric_sale_def gt0_def js_def
      rupee_def xfree_opt_def substring_def)

text \<open>
  C2, as stated, fails: the name of \<open>long_item\<close> has 30 characters, and its first 20,
  \<open>Organic Turmeric Mix\<close>, are nowhere in the receipt: the name column is 16 wide.
\<close>

theorem long_name_cut_at_16:
  "length (name long_item) = 30
   \<and> long_item \<in> set (items long_sale)
   \<and> substring (name long_item) 0 20 = js ''Organic Turmeric Mix''
   \<and> \<not> sublist (substring (name long_item) 0 20) (formatReceipt no_engine sample_now long_sale)"
proof (intro conjI)
  show "length (name long_item) = 30"
    by (simp add: long_item_def js_def)
  show "long_item \<in> set (items long_sale)"
    by (simp add: long_sale_def)
  show cut: "substring (name long_item) 0 20 = js ''Organic Turmeric Mix''"
    by (simp add: long_item_def js_def substring_def)
  have "xfree (formatReceipt no_engine sample_now long_sale)"
    using xfree_long_sale xfree_zero_tax_sale(2) by (intro xfree_receipt)
  moreover have "0x78 \<in> set (js ''Organic Turmeric Mix'')"
    by (simp add: js_def)
  ultimately show
    "\<not> sublist (substring (name long_item) 0 20) (formatReceipt no_engine sample_now long_sale)"
    unfolding cut xfree_def using set_mono_sublist by blast
qed

text \<open>
  C2, amended: for an item whose name is longer than 20 characters, the row emitted by
  \<open>formatReceipt\<close> is \<open>padLine\<close> on the name cut to 20 characters; it is 40 code units
  long and its name column, the first 16, holds exactly the first 16 characters of the
  name.
\<close>

theorem item_name_column:
  assumes "20 < length (name item)" and "item \<in> set (items d)"
  shows "sublist (item_row eng (currency d) item @ LINE_FEED) (formatReceipt eng now d)
    \<and> item_row eng (currency d) item =
        padLine (substring (name item) 0 20) (Number_toString eng (quantity item))
          (currency d @ toFixed2 eng (price item)) (currency d @ toFixed2 eng (total item))
    \<and> length (item_row eng (currency d) item) = 40
    \<and> take 16 (item_row eng (currency d) item) = take 16 (name item)"
proof (intro conjI)
  show "sublist (item_row eng (currency d) item @ LINE_FEED) (formatReceipt eng now d)"
    using assms(2) by (rule item_line_in_receipt)
  show "item_row eng (currency d) item =
        padLine (substring (name item) 0 20) (Number_toString eng (quantity item))
          (currency d @ toFixed2 eng (price item)) (currency d @ toFixed2 eng (total item))"
    by (simp add: item_row_def)
  show "length (item_row eng (currency d) item) = 40"
    by (simp add: item_row_def padLine_def fit_left fit_right
        col1Width_def col2Width_def col3Width_def col4Width_def)
  have "16 \<le> length (substring (name item) 0 20)"
    using assms(1) by (simp add: length_substring0)
  then have "take 16 (item_row eng (currency d) item) = take 16 (substring (name item) 0 20)"
    by (simp add: item_row_def padLine_columns fit_left_long)
  then show "take 16 (item_row eng (currency d) item) = take 16 (name item)"
    by (simp add: substring_def)
qed

theorem item_name_column_witness:
  "20 < length (name long_item)
   \<and> long_item \<in> set (items long_sale)
   \<and> sublist (item_row no_engine (currency long_sale) long_item @ LINE_FEED)
       (formatReceipt no_engine sample_now long_sale)
   \<and> length (item_row no_engine (currency long_sale) long_item) = 40
   \<and> take 16 (item_row no_engine (currency long_sale) long_item) = js ''Organic Turmeric''"
proof -
  have a: "20 < length (name long_item)"
    by (simp add: long_item_def js_def)
  have b: "long_item \<in> set (items long_sale)"
    by (simp add: long_sale_def)
  have c: "take 16 (name long_item) = js ''Organic Turmeric''"
    by (simp add: long_item_def js_def)
  from item_name_column [OF a b, of no_engine sample_now]
  have "sublist (item_row no_engine (currency long_sale) long_item @ LINE_FEED)
       (formatReceipt no_engine sample_now long_sale)"
    and "length (item_row no_engine (currency long_sale) long_item) = 40"
    and "take 16 (item_row no_engine (currency long_sale) long_item) = take 16 (name long_item)"
    by blast+
  with a b c show ?thesis
    by simp
qed

subsection \<open>Overflowing columns\<close>

lemma string_12345: "Number_toString eng (Num 12345) = js ''12345''"
  by (rule trans [OF toString_value [where m = "js ''12345''"]]) (simp_all add: render)

lemma fixed_123456789: "toFixed2 eng (Num 123456789) = js ''123456789.00''"
  by (rule trans [OF toFixed2_value [where n = 12345678900 and m = "js ''12345678900''"]])
     (simp_all add: render)

lemma split_row: "r = take 16 r @ take 4 (drop 16 r) @ take 10 (drop 20 r) @ drop 30 r"
proof -
  have "take 10 (drop 20 r) @ drop 30 r = drop 20 r"
    using append_take_drop_id [of 10 "drop 20 r"] by simp
  then have "take 4 (drop 16 r) @ take 10 (drop 20 r) @ drop 30 r = drop 16 r"
    using append_take_drop_id [of 4 "drop 16 r"] by simp
  then show ?thesis
    by simp
qed

text \<open>
  C10: a column that overflows is cut to its leading characters. In the row of
  \<open>padLine\<close>, a first string longer than 16 shows its first 16 code units; a quantity
  string longer than 4 shows its first 4; a price or total string longer than 10 shows
  its first 10: the trailing digits of the amount are dropped. So it is in the printed
  receipt: for every item of a receipt, the text of \<open>formatReceipt\<close> contains the row of
  the item followed by a line feed; the row is \<open>padLine\<close> on the name cut to 20, the
  quantity's string, and the price and the total with the currency in front; it is 40
  code units long; and its quantity column holds the first 4 code units of a quantity
  string longer than 4, its price and total columns the first 10 code units of a price
  or total string (currency included) longer than 10.
\<close>

theorem padLine_truncates:
  "(16 < length col1 \<longrightarrow> take 16 (padLine col1 col2 col3 col4) = take 16 col1)
   \<and> (4 < length col2 \<longrightarrow> take 4 (drop 16 (padLine col1 col2 col3 col4)) = take 4 col2)
   \<and> (10 < length col3 \<longrightarrow> take 10 (drop 20 (padLine col1 col2 col3 col4)) = take 10 col3)
   \<and> (10 < length col4 \<longrightarrow> drop 30 (padLine col1 col2 col3 col4) = take 10 col4)
   \<and> item_row eng cur item =
       padLine (substring (name item) 0 20) (Number_toString eng (quantity item))
         (cur @ toFixed2 eng (price item)) (cur @ toFixed2 eng (total item))
   \<and> (item \<in> set (items d) \<longrightarrow>
        sublist (item_row eng (currency d) item @ LINE_FEED) (formatReceipt eng now d)
        \<and> length (item_row eng (currency d) item) = 40
        \<and> (4 < length (Number_toString eng (quantity item)) \<longrightarrow>
             take 4 (drop 16 (item_row eng (currency d) item))
               = take 4 (Number_toString eng (quantity item)))
        \<and> (10 < length (currency d @ toFixed2 eng (price item)) \<longrightarrow>
             take 10 (drop 20 (item_row eng (currency d) item))
               = take 10 (currency d @ toFixed2 eng (price item)))
        \<and> (10 < length (currency d @ toFixed2 eng (total item)) \<longrightarrow>
             drop 30 (item_row eng (currency d) item)
               = take 10 (currency d @ toFixed2 eng (total item))))"
proof -
  have pad: "(16 < length col1 \<longrightarrow> take 16 (padLine col1 col2 col3 col4) = take 16 col1)
   \<and> (4 < length col2 \<longrightarrow> take 4 (drop 16 (padLine col1 col2 col3 col4)) = take 4 col2)
   \<and> (10 < length col3 \<longrightarrow> take 10 (drop 20 (padLine col1 col2 col3 col4)) = take 10 col3)
   \<and> (10 < length col4 \<longrightarrow> drop 30 (padLine col1 col2 col3 col4) = take 10 col4)"
    by (simp add: padLine_columns fit_left_long fit_right_long)
  have row: "item_row eng cur item =
       padLine (substring (name item) 0 20) (Number_toString eng (quantity item))
         (cur @ toFixed2 eng (price item)) (cur @ toFixed2 eng (total item))" for cur
    by (simp add: item_row_def)
  have len: "length (item_row eng (currency d) item) = 40"
    by (simp add: item_row_def padLine_def fit_left fit_right
        col1Width_def col2Width_def col3Width_def col4Width_def)
  have q: "4 < length (Number_toString eng (quantity item)) \<longrightarrow>
             take 4 (drop 16 (item_row eng (currency d) item))
               = take 4 (Number_toString eng (quantity item))"
    by (simp add: row padLine_columns fit_right_long)
  have pr: "10 < length (currency d @ toFixed2 eng (price item)) \<longrightarrow>
             take 10 (drop 20 (item_row eng (currency d) item))
               = take 10 (currency d @ toFixed2 eng (price item))"
    unfolding row by (simp only: padLine_columns) (simp add: fit_right_long)
  have tot: "10 < length (currency d @ toFixed2 eng (total item)) \<longrightarrow>
             drop 30 (item_row eng (currency d) item)
               = take 10 (currency d @ toFixed2 eng (total item))"
    unfolding row by (simp only: padLine_columns) (simp add: fit_right_long)
  have sub: "item \<in> set (items d) \<longrightarrow>
        sublist (item_row eng (currency d) item @ LINE_FEED) (formatReceipt eng now d)"
    by (simp add: item_line_in_receipt)
  from pad row [of cur] len q pr tot sub show ?thesis by blast
qed

theorem padLine_truncates_witness:
  "4 < length (Number_toString no_engine (Num 12345))
   \<and> 10 < length (rupee @ toFixed2 no_engine (Num 123456789))
   \<and> 16 < length (js ''Organic Turmeric Mix'')
   \<and> padLine (js ''Organic Turmeric Mix'') (Number_toString no_engine (Num 12345))
        (rupee @ toFixed2 no_engine (Num 123456789)) (rupee @ toFixed2 no_engine (Num 123456789))
      = js ''Organic Turmeric1234'' @ rupee @ js ''123456789'' @ rupee @ js ''123456789''
   \<and> wide_item \<in> set (items wide_sale)
   \<and> sublist
        (js ''Organic Turmeric1234'' @ rupee @ js ''123456789'' @ rupee @ js ''123456789'' @ LINE_FEED)
        (formatReceipt no_engine sample_now wide_sale)"
proof -
  let ?q = "Number_toString no_engine (Num 12345)"
  let ?p = "rupee @ toFixed2 no_engine (Num 123456789)"
  let ?row = "padLine (js ''Organic Turmeric Mix'') ?q ?p ?p"
  have a: "4 < length ?q" "10 < length ?p" "16 < length (js ''Organic Turmeric Mix'')"
    by (simp_all add: string_12345 fixed_123456789 js_def rupee_def)
  have w: "wide_item \<in> set (items wide_sale)"
    by (simp add: wide_sale_def)
  have f: "name wide_item = js ''Organic Turmeric Mix''" "quantity wide_item = Num 12345"
    "price wide_item = Num 123456789" "total wide_item = Num 123456789"
    "currency wide_sale = rupee"
    by (simp_all add: wide_item_def wide_sale_def zero_tax_sale_def turmeric_sale_def)
  have n: "substring (js ''Organic Turmeric Mix'') 0 20 = js ''Organic Turmeric Mix''"
    by (simp add: substring_def js_def)
  note t = padLine_truncates [of "js ''Organic Turmeric Mix''" "?q" "?p" "?p"
      no_engine rupee wide_item wide_sale sample_now]
  from a t
  have cols: "take 16 ?row = take 16 (js ''Organic Turmeric Mix'')"
    "take 4 (drop 16 ?row) = take 4 ?q"
    "take 10 (drop 20 ?row) = take 10 ?p"
    "drop 30 ?row = take 10 ?p"
    by blast+
  have "?row = take 16 ?row @ take 4 (drop 16 ?row) @ take 10 (drop 20 ?row) @ drop 30 ?row"
    by (rule split_row)
  also have "\<dots> = js ''Organic Turmeric1234'' @ rupee @ js ''123456789'' @ rupee @ js ''123456789''"
    unfolding cols by (simp add: string_12345 fixed_123456789 js_def rupee_def)
  finally have r: "?row
      = js ''Organic Turmeric1234'' @ rupee @ js ''123456789'' @ rupee @ js ''123456789''" .
  from t have "item_row no_engine rupee wide_item = padLine (substring (name wide_item) 0 20)
      (Number_toString no_engine (quantity wide_item))
      (rupee @ toFixed2 no_engine (price wide_item)) (rupee @ toFixed2 no_engine (total wide_item))"
    by blast
  then have ir: "item_row no_engine rupee wide_item = ?row"
    by (simp only: f n)
  from t w have "sublist (item_row no_engine (currency wide_sale) wide_item @ LINE_FEED)
      (formatReceipt no_engine sample_now wide_sale)"
    by blast
  then have s: "sublist
        (js ''Organic Turmeric1234'' @ rupee @ js ''123456789'' @ rupee @ js ''123456789'' @ LINE_FEED)
        (formatReceipt no_engine sample_now wide_sale)"
    by (simp only: f ir r append_assoc)
  from a r w s show ?thesis by blast
qed
section \<open>Traces of the actions\<close>

lemma world_same [simp]: "w\<lparr>trace := trace w @ [], clock_reads := clock_reads w + 0\<rparr> = w"
  by simp

lemma movesI:
  assumes "\<And>w. \<exists>evs n. list_all P evs
       \<and> snd (m w) = w\<lparr>trace := trace w @ evs, clock_reads := clock_reads w + n\<rparr>"
  shows "moves P m"
  using assms by (simp add: moves_def)

lemma movesD:
  assumes "moves P m"
  obtains evs n where "list_all P evs"
    "snd (m w) = w\<lparr>trace := trace w @ evs, clock_reads := clock_reads w + n\<rparr>"
  using assms unfolding moves_def by blast

lemma moves_pure: "moves P (pure x)"
proof (rule movesI)
  fix w :: world
  have "list_all P [] \<and> snd (pure x w) = w\<lparr>trace := trace w @ [], clock_reads := clock_reads w + 0\<rparr>"
    by (simp add: pure_def)
  then show "\<exists>evs n. list_all P evs
       \<and> snd (pure x w) = w\<lparr>trace := trace w @ evs, clock_reads := clock_reads w + n\<rparr>"
    by blast
qed

lemma moves_throw: "moves P (throw e)"
proof (rule movesI)
  fix w :: world
  have "list_all P [] \<and> snd (throw e w) = w\<lparr>trace := trace w @ [], clock_reads := clock_reads w + 0\<rparr>"
    by (simp add: throw_def)
  then show "\<exists>evs n. list_all P evs
       \<and> snd (throw e w) = w\<lparr>trace := trace w @ evs, clock_reads := clock_reads w + n\<rparr>"
    by blast
qed

lemma moves_tell: "P e \<Longrightarrow> moves P (tell e)"
proof (rule movesI)
  fix w :: world
  assume "P e"
  then have "list_all P [e] \<and> snd (tell e w) = w\<lparr>trace := trace w @ [e], clock_reads := clock_reads w + 0\<rparr>"
    by (simp add: tell_def)
  then show "\<exists>evs n. list_all P evs
       \<and> snd (tell e w) = w\<lparr>trace := trace w @ evs, clock_reads := clock_reads w + n\<rparr>"
    by blast
qed

lemma moves_call: "P e \<Longrightarrow> moves P (call e b)"
proof (rule movesI)
  fix w :: world
  assume "P e"
  then have "list_all P [e] \<and> snd (call e b w) = w\<lparr>trace := trace w @ [e], clock_reads := clock_reads w + 0\<rparr>"
    by (simp add: call_def)
  then show "\<exists>evs n. list_all P evs
       \<and> snd (call e b w) = w\<lparr>trace := trace w @ evs, clock_reads := clock_reads w + n\<rparr>"
    by blast
qed

lemma moves_read_clock: "moves P (read_clock h)"
proof (rule movesI)
  fix w :: world
  have "list_all P [] \<and> snd (read_clock h w) = w\<lparr>trace := trace w @ [], clock_reads := clock_reads w + 1\<rparr>"
    by (simp add: read_clock_def)
  then show "\<exists>evs n. list_all P evs
       \<and> snd (read_clock h w) = w\<lparr>trace := trace w @ evs, clock_reads := clock_reads w + n\<rparr>"
    by blast
qed

lemma moves_then:
  assumes 1: "list_all P evs1" "w1 = w\<lparr>trace := trace w @ evs1, clock_reads := clock_reads w + n1\<rparr>"
    and 2: "list_all P evs2" "w2 = w1\<lparr>trace := trace w1 @ evs2, clock_reads := clock_reads w1 + n2\<rparr>"
  shows "\<exists>evs n. list_all P evs \<and> w2 = w\<lparr>trace := trace w @ evs, clock_reads := clock_reads w + n\<rparr>"
proof -
  have "list_all P (evs1 @ evs2)" using 1 2 by simp
  moreover have "w2 = w\<lparr>trace := trace w @ (evs1 @ evs2), clock_reads := clock_reads w + (n1 + n2)\<rparr>"
    using 1 2 by simp
  ultimately show ?thesis by blast
qed

lemma bind_Inl: "fst (m w) = Inl e \<Longrightarrow> bind m f w = (Inl e, snd (m w))"
  by (cases "m w") (simp add: bind_def)

lemma bind_Inr: "fst (m w) = Inr x \<Longrightarrow> bind m f w = f x (snd (m w))"
  by (cases "m w") (simp add: bind_def)

lemma try_catch_Inl: "fst (m w) = Inl e \<Longrightarrow> try_catch m handler w = handler e (snd (m w))"
  by (cases "m w") (simp add: try_catch_def)

lemma try_catch_Inr: "fst (m w) = Inr x \<Longrightarrow> try_catch m handler w = (Inr x, snd (m w))"
  by (cases "m w") (simp add: try_catch_def)

lemma moves_bind:
  assumes "moves P m" and "\<And>x. moves P (f x)"
  shows "moves P (bind m f)"
proof (rule movesI)
  fix w
  from assms(1) obtain evs1 n1 where 1: "list_all P evs1"
    "snd (m w) = w\<lparr>trace := trace w @ evs1, clock_reads := clock_reads w + n1\<rparr>"
    by (rule movesD)
  show "\<exists>evs n. list_all P evs
       \<and> snd (bind m f w) = w\<lparr>trace := trace w @ evs, clock_reads := clock_reads w + n\<rparr>"
  proof (cases "fst (m w)")
    case (Inl e)
    then have "snd (bind m f w) = snd (m w)"
      by (simp add: bind_Inl)
    with 1 show ?thesis by auto
  next
    case (Inr x)
    then have eq: "bind m f w = f x (snd (m w))"
      by (rule bind_Inr)
    from assms(2) obtain evs2 n2 where 2: "list_all P evs2"
      "snd (f x (snd (m w))) = (snd (m w))\<lparr>trace := trace (snd (m w)) @ evs2,
          clock_reads := clock_reads (snd (m w)) + n2\<rparr>"
      by (rule movesD)
    show ?thesis unfolding eq using moves_then [OF 1 2] .
  qed
qed

lemma moves_try_catch:
  assumes "moves P m" and "\<And>e. moves P (handler e)"
  shows "moves P (try_catch m handler)"
proof (rule movesI)
  fix w
  from assms(1) obtain evs1 n1 where 1: "list_all P evs1"
    "snd (m w) = w\<lparr>trace := trace w @ evs1, clock_reads := clock_reads w + n1\<rparr>"
    by (rule movesD)
  show "\<exists>evs n. list_all P evs
       \<and> snd (try_catch m handler w) = w\<lparr>trace := trace w @ evs, clock_reads := clock_reads w + n\<rparr>"
  proof (cases "fst (m w)")
    case (Inr x)
    then have "snd (try_catch m handler w) = snd (m w)"
      by (simp add: try_catch_Inr)
    with 1 show ?thesis by auto
  next
    case (Inl e)
    then have eq: "try_catch m handler w = handler e (snd (m w))"
      by (rule try_catch_Inl)
    from assms(2) obtain evs2 n2 where 2: "list_all P evs2"
      "snd (handler e (snd (m w))) = (snd (m w))\<lparr>trace := trace (snd (m w)) @ evs2,
          clock_reads := clock_reads (snd (m w)) + n2\<rparr>"
      by (rule movesD)
    show ?thesis unfolding eq using moves_then [OF 1 2] .
  qed
qed

lemma moves_block_Nil: "moves P (block [])"
  by (simp add: moves_pure)

lemma moves_block_Cons: "moves P m \<Longrightarrow> moves P (block ms) \<Longrightarrow> moves P (block (m # ms))"
  by (simp add: moves_bind)

lemma moves_if: "moves P a \<Longrightarrow> moves P b \<Longrightarrow> moves P (if c then a else b)"
  by simp

lemma moves_formatReceipt_now: "moves P (formatReceipt_now h d)"
  unfolding formatReceipt_now_def by (intro moves_bind moves_read_clock moves_pure)

lemma moves_fetch_loop: "(\<And>url. P (Fetch url rd)) \<Longrightarrow> moves P (fetch_loop h rd ips)"
proof (induction ips)
  case Nil
  show ?case by (simp add: moves_throw)
next
  case (Cons ip ips)
  then have "moves P (fetch_loop h rd ips)" by simp
  with Cons.prems show ?case
    by (auto intro!: moves_bind moves_tell moves_pure split: fetch_result.split bool.split)
qed

lemma moves_connect: "(\<And>b. P (SerialOpen b)) \<Longrightarrow> (\<And>b. P (ConsoleLog_baud b)) \<Longrightarrow> moves P (connect h bs)"
proof (induction bs)
  case Nil
  show ?case by (simp add: moves_throw)
next
  case (Cons b bs)
  then have "moves P (connect h bs)" by simp
  with Cons.prems show ?case
    by (auto intro!: moves_try_catch moves_bind moves_tell moves_call)
qed

lemma moves_try_methods: "(\<And>m. m \<in> set ms \<Longrightarrow> moves P m) \<Longrightarrow> (\<And>e. P (ConsoleLog_method e)) \<Longrightarrow> moves P (try_methods ms)"
proof (induction ms)
  case Nil
  show ?case by (simp add: moves_throw)
next
  case (Cons m ms)
  then have "moves P (try_methods ms)" by simp
  with Cons.prems show ?case
    by (auto intro!: moves_try_catch moves_bind moves_tell)
qed

lemma moves_attempt:
  assumes "moves P m" "P (Invoke s)" "P (Resolved s)" "\<And>e. P (Rejected s e)"
  shows "moves P (attempt s m)"
  unfolding attempt_def using assms
  by (intro moves_bind moves_try_catch moves_tell moves_throw)

lemma moves_write_chunks:
  assumes "\<And>b. P (SerialWrite b)" "\<And>n. P (Sleep n)"
  shows "moves P (write_chunks h a i)"
proof (rule movesI)
  fix w
  show "\<exists>evs n. list_all P evs
       \<and> snd (write_chunks h a i w) = w\<lparr>trace := trace w @ evs, clock_reads := clock_reads w + n\<rparr>"
  proof (induction h a i w rule: write_chunks.induct)
    case (1 h a i w)
    show ?case
    proof (cases "i < length a")
      case False
      then have "snd (write_chunks h a i w) = w\<lparr>trace := trace w @ [], clock_reads := clock_reads w + 0\<rparr>"
        by (subst write_chunks.simps) simp
      moreover have "list_all P []" by simp
      ultimately show ?thesis by blast
    next
      case True
      let ?c = "slice a i (i + chunkSize)"
      let ?w1 = "w\<lparr>trace := trace w @ [SerialWrite ?c]\<rparr>"
      show ?thesis
      proof (cases "serial_write h i ?c")
        case False
        with True have "snd (write_chunks h a i w) = w\<lparr>trace := trace w @ [SerialWrite ?c], clock_reads := clock_reads w + 0\<rparr>"
          by (subst write_chunks.simps) (simp add: call_def)
        moreover have "list_all P [SerialWrite ?c]" using assms by simp
        ultimately show ?thesis by blast
      next
        case ok: True
        let ?w2 = "w\<lparr>trace := trace w @ [SerialWrite ?c, Sleep 10], clock_reads := clock_reads w + 0\<rparr>"
        have c: "call (SerialWrite ?c) (serial_write h i ?c) w = (Inr (), ?w1)"
          using ok by (simp add: call_def)
        have s: "snd (tell (Sleep 10) ?w1) = ?w2"
          by (simp add: tell_def)
        from True c s have eq: "write_chunks h a i w = write_chunks h a (i + chunkSize) ?w2"
          by (subst write_chunks.simps) simp
        from "1.IH" [OF True c [symmetric] refl] s
        obtain evs n where 2: "list_all P evs"
          "snd (write_chunks h a (i + chunkSize) ?w2) = ?w2\<lparr>trace := trace ?w2 @ evs, clock_reads := clock_reads ?w2 + n\<rparr>"
          by auto
        have 1: "list_all P [SerialWrite ?c, Sleep 10]" using assms by simp
        show ?thesis unfolding eq using moves_then [OF 1 refl 2] .
      qed
    qed
  qed
qed

subsection \<open>Actions that do not read the clock\<close>

lemma quiet_pure: "quiet_clock (pure x)"
  by (simp add: quiet_clock_def pure_def)

lemma quiet_throw: "quiet_clock (throw e)"
  by (simp add: quiet_clock_def throw_def)

lemma quiet_tell: "quiet_clock (tell e)"
  by (simp add: quiet_clock_def tell_def)

lemma quiet_call: "quiet_clock (call e b)"
  by (simp add: quiet_clock_def call_def)

lemma quiet_bind: "quiet_clock m \<Longrightarrow> (\<And>x. quiet_clock (f x)) \<Longrightarrow> quiet_clock (bind m f)"
  unfolding quiet_clock_def
proof
  fix w
  assume a: "\<forall>w. clock_reads (snd (m w)) = clock_reads w"
    and b: "\<And>x. \<forall>w. clock_reads (snd (f x w)) = clock_reads w"
  show "clock_reads (snd (bind m f w)) = clock_reads w"
  proof (cases "fst (m w)")
    case (Inl e)
    then show ?thesis using a by (simp add: bind_Inl)
  next
    case (Inr x)
    then show ?thesis using a b by (simp add: bind_Inr)
  qed
qed

lemma quiet_try_catch:
  "quiet_clock m \<Longrightarrow> (\<And>e. quiet_clock (handler e)) \<Longrightarrow> quiet_clock (try_catch m handler)"
  unfolding quiet_clock_def
proof
  fix w
  assume a: "\<forall>w. clock_reads (snd (m w)) = clock_reads w"
    and b: "\<And>e. \<forall>w. clock_reads (snd (handler e w)) = clock_reads w"
  show "clock_reads (snd (try_catch m handler w)) = clock_reads w"
  proof (cases "fst (m w)")
    case (Inl e)
    then show ?thesis using a b by (simp add: try_catch_Inl)
  next
    case (Inr x)
    then show ?thesis using a by (simp add: try_catch_Inr)
  qed
qed

lemma quiet_block_Nil: "quiet_clock (block [])"
  by (simp add: quiet_pure)

lemma quiet_block_Cons: "quiet_clock m \<Longrightarrow> quiet_clock (block ms) \<Longrightarrow> quiet_clock (block (m # ms))"
  by (simp add: quiet_bind)

lemma quiet_if: "quiet_clock a \<Longrightarrow> quiet_clock b \<Longrightarrow> quiet_clock (if c then a else b)"
  by simp

lemma quiet_fetch_loop: "quiet_clock (fetch_loop h rd ips)"
proof (induction ips)
  case Nil
  show ?case by (simp add: quiet_throw)
next
  case (Cons ip ips)
  then show ?case
    by (auto intro!: quiet_bind quiet_tell quiet_pure split: fetch_result.split bool.split)
qed

lemma quiet_attempt: "quiet_clock m \<Longrightarrow> quiet_clock (attempt s m)"
  unfolding attempt_def
  by (intro quiet_bind quiet_try_catch quiet_tell quiet_throw)

lemmas moves_intros = moves_bind moves_try_catch moves_block_Cons moves_block_Nil moves_if
  moves_pure moves_throw moves_fetch_loop moves_connect moves_write_chunks moves_formatReceipt_now
  moves_read_clock

lemmas quiet_intros = quiet_bind quiet_try_catch quiet_block_Cons quiet_block_Nil quiet_if
  quiet_pure quiet_throw quiet_tell quiet_call quiet_fetch_loop

subsection \<open>The methods of \<open>printViaPOSCommand\<close>\<close>

lemma pos_bodies_moves:
  "(s, b) \<in> set (pos_bodies h rd) \<Longrightarrow> moves (pos_event rd) b \<and> quiet_clock b"
  unfolding pos_bodies_def usb_body_def android_body_def windows_body_def
  by (auto intro!: moves_intros moves_call quiet_intros simp: pos_event_def)

lemma pos_methods_eq:
  "[printViaWebUSB h rd, printViaAndroidIntent h rd, printViaWindowsPrint h rd,
    printViaRawSocket h rd] = map (\<lambda>(s, b). attempt s b) (pos_bodies h rd)"
  by (simp add: pos_bodies_def printViaWebUSB_def printViaAndroidIntent_def
      printViaWindowsPrint_def printViaRawSocket_def usb_body_def android_body_def windows_body_def)

lemma attempt_eq:
  "attempt s m w =
     (let w1 = w\<lparr>trace := trace w @ [Invoke s]\<rparr>; r = fst (m w1); w2 = snd (m w1)
      in (r, w2\<lparr>trace := trace w2 @ [settled s r]\<rparr>))"
proof -
  obtain r w2 where mw: "m (w\<lparr>trace := trace w @ [Invoke s]\<rparr>) = (r, w2)"
    by (cases "m (w\<lparr>trace := trace w @ [Invoke s]\<rparr>)")
  show ?thesis
    by (cases r)
       (simp_all add: attempt_def bind_def tell_def try_catch_def throw_def settled_def Let_def mw)
qed

lemma attempt_shape:
  assumes "moves P m"
  obtains x n where "list_all P x"
    "snd (attempt s m w) =
       w\<lparr>trace := trace w @ segment s x (fst (attempt s m w)), clock_reads := clock_reads w + n\<rparr>"
proof -
  let ?w1 = "w\<lparr>trace := trace w @ [Invoke s]\<rparr>"
  from assms obtain x n where x: "list_all P x"
    "snd (m ?w1) = ?w1\<lparr>trace := trace ?w1 @ x, clock_reads := clock_reads ?w1 + n\<rparr>"
    by (rule movesD)
  have "snd (attempt s m w) =
       w\<lparr>trace := trace w @ segment s x (fst (attempt s m w)), clock_reads := clock_reads w + n\<rparr>"
    by (simp add: attempt_eq Let_def x segment_def)
  with x(1) show ?thesis by (rule that)
qed

lemma attempt_quiet_shape:
  assumes "moves P m" "quiet_clock m"
  obtains x where "list_all P x"
    "snd (attempt s m w) = w\<lparr>trace := trace w @ segment s x (fst (attempt s m w))\<rparr>"
proof -
  from assms(1) obtain x n where x: "list_all P x"
    "snd (attempt s m w) =
       w\<lparr>trace := trace w @ segment s x (fst (attempt s m w)), clock_reads := clock_reads w + n\<rparr>"
    by (rule attempt_shape)
  from assms(2) have "clock_reads (snd (attempt s m w)) = clock_reads w"
    using quiet_attempt by (simp add: quiet_clock_def)
  with x(2) have "n = 0" by simp
  with x(2) have "snd (attempt s m w) = w\<lparr>trace := trace w @ segment s x (fst (attempt s m w))\<rparr>"
    by simp
  with x(1) show ?thesis by (rule that)
qed

lemma try_methods_shape:
  assumes "\<And>s b. (s, b) \<in> set sbs \<Longrightarrow> moves P b \<and> quiet_clock b"
  shows "\<exists>evs. snd (try_methods (map (\<lambda>(s, b). attempt s b) sbs) w) = w\<lparr>trace := trace w @ evs\<rparr>
     \<and> methods_shape P (map fst sbs) (fst (try_methods (map (\<lambda>(s, b). attempt s b) sbs) w)) evs"
  using assms
proof (induction sbs arbitrary: w)
  case Nil
  show ?case by (simp add: throw_def)
next
  case (Cons sb sbs)
  obtain s b where sb: "sb = (s, b)" by (cases sb)
  from Cons.prems sb have mb: "moves P b" "quiet_clock b" by auto
  from mb obtain x where x: "list_all P x"
    "snd (attempt s b w) = w\<lparr>trace := trace w @ segment s x (fst (attempt s b w))\<rparr>"
    by (rule attempt_quiet_shape)
  let ?ms = "map (\<lambda>(s, b). attempt s b) sbs"
  show ?case
  proof (cases "fst (attempt s b w)")
    case (Inr u)
    then have "try_methods (map (\<lambda>(s, b). attempt s b) (sb # sbs)) w = (Inr (), snd (attempt s b w))"
      by (simp add: sb try_catch_Inr)
    with x Inr show ?thesis by (auto simp: sb)
  next
    case (Inl e)
    let ?w1 = "w\<lparr>trace := trace w @ segment s x (Inl e) @ [ConsoleLog_method e]\<rparr>"
    from Inl x have eq: "try_methods (map (\<lambda>(s, b). attempt s b) (sb # sbs)) w = try_methods ?ms ?w1"
      by (simp add: sb try_catch_Inl bind_def tell_def)
    from Cons.IH [of ?w1] Cons.prems
    obtain evs where evs: "snd (try_methods ?ms ?w1) = ?w1\<lparr>trace := trace ?w1 @ evs\<rparr>"
      "methods_shape P (map fst sbs) (fst (try_methods ?ms ?w1)) evs"
      by auto
    have "snd (try_methods ?ms ?w1) = w\<lparr>trace := trace w @ (segment s x (Inl e) @ ConsoleLog_method e # evs)\<rparr>"
      using evs(1) by simp
    moreover have "methods_shape P (map fst (sb # sbs)) (fst (try_methods ?ms ?w1))
        (segment s x (Inl e) @ ConsoleLog_method e # evs)"
      using evs(2) x(1) by (auto simp: sb)
    ultimately show ?thesis unfolding eq by blast
  qed
qed

lemma printViaPOSCommand_shape:
  fixes h d w
  defines "p \<equiv> formatReceipt (number_engine h) (toLocaleString h (clock_reads w)) d"
  shows "\<exists>evs. snd (printViaPOSCommand h d w)
            = w\<lparr>trace := trace w @ evs, clock_reads := Suc (clock_reads w)\<rparr>
     \<and> methods_shape (pos_event p) pos_strategies (fst (printViaPOSCommand h d w)) evs"
proof -
  let ?w1 = "w\<lparr>clock_reads := Suc (clock_reads w)\<rparr>"
  have eq: "printViaPOSCommand h d w = try_methods (map (\<lambda>(s, b). attempt s b) (pos_bodies h p)) ?w1"
    by (simp add: printViaPOSCommand_def formatReceipt_now_def bind_def read_clock_def pure_def
        pos_methods_eq p_def)
  from try_methods_shape [of "pos_bodies h p" "pos_event p" ?w1] pos_bodies_moves [of _ _ h p]
  obtain evs where evs: "snd (try_methods (map (\<lambda>(s, b). attempt s b) (pos_bodies h p)) ?w1)
        = ?w1\<lparr>trace := trace ?w1 @ evs\<rparr>"
    "methods_shape (pos_event p) (map fst (pos_bodies h p))
        (fst (try_methods (map (\<lambda>(s, b). attempt s b) (pos_bodies h p)) ?w1)) evs"
    by blast
  have st: "map fst (pos_bodies h p) = pos_strategies"
    by (simp add: pos_bodies_def pos_strategies_def)
  show ?thesis unfolding eq
    by (rule exI [of _ evs]) (use evs st in simp)
qed

subsection \<open>Chunks\<close>

lemma chop_Nil [simp]: "chop n [] = []"
  by (simp add: chop.simps)

lemma chop_0 [simp]: "chop 0 xs = []"
  by (simp add: chop.simps)

lemma chop_step: "0 < n \<Longrightarrow> xs \<noteq> [] \<Longrightarrow> chop n xs = take n xs # chop n (drop n xs)"
  by (subst chop.simps) simp

lemma concat_chop: "0 < n \<Longrightarrow> concat (chop n xs) = xs"
proof (induction n xs rule: chop.induct)
  case (1 n xs)
  show ?case
  proof (cases "xs = []")
    case True
    then show ?thesis by simp
  next
    case False
    with 1 show ?thesis by (simp add: chop_step)
  qed
qed

lemma chop_lengths:
  "0 < n \<Longrightarrow> c \<in> set (chop n xs) \<Longrightarrow> 0 < length c \<and> length c \<le> n"
proof (induction n xs rule: chop.induct)
  case (1 n xs)
  show ?case
  proof (cases "xs = []")
    case True
    with 1 show ?thesis by simp
  next
    case False
    with 1 show ?thesis by (auto simp: chop_step)
  qed
qed

lemma chop_full:
  "0 < n \<Longrightarrow> c \<in> set (butlast (chop n xs)) \<Longrightarrow> length c = n"
proof (induction n xs rule: chop.induct)
  case (1 n xs)
  show ?case
  proof (cases "xs = []")
    case True
    with 1 show ?thesis by simp
  next
    case False
    show ?thesis
    proof (cases "chop n (drop n xs) = []")
      case True
      with 1 False show ?thesis by (simp add: chop_step)
    next
      case ne: False
      then have "drop n xs \<noteq> []" by auto
      then have "n < length xs" by simp
      with 1 False ne show ?thesis by (auto simp: chop_step)
    qed
  qed
qed

lemma write_chunks_facts:
  "\<exists>evs. snd (write_chunks h a i w) = w\<lparr>trace := trace w @ evs\<rparr>
     \<and> wc_facts h a i (fst (write_chunks h a i w)) evs"
proof (induction h a i w rule: write_chunks.induct)
  case (1 h a i w)
  show ?case
  proof (cases "i < length a")
    case False
    then have "write_chunks h a i w = (Inr (), w)" by (subst write_chunks.simps) simp
    moreover from False have "wc_facts h a i (Inr ()) []"
      by (simp add: wc_facts_def accepted_but_last_def)
    ultimately show ?thesis by (intro exI [of _ "[]"]) simp
  next
    case True
    let ?c = "slice a i (i + chunkSize)"
    let ?w1 = "w\<lparr>trace := trace w @ [SerialWrite ?c]\<rparr>"
    from True have ne: "drop i a \<noteq> []" by simp
    have c: "?c = take chunkSize (drop i a)" by (simp add: slice_def)
    have ch: "chop chunkSize (drop i a) = ?c # chop chunkSize (drop (i + chunkSize) a)"
      using ne by (simp add: chop_step chunkSize_def slice_def add.commute)
    show ?thesis
    proof (cases "serial_write h i ?c")
      case False
      with True have eq: "write_chunks h a i w = (Inl HostError, ?w1)"
        by (subst write_chunks.simps) (simp add: call_def)
      have "wc_facts h a i (Inl HostError) [SerialWrite ?c]"
        unfolding wc_facts_def accepted_but_last_def ch by (simp add: wc_event_def)
      with eq show ?thesis by (intro exI [of _ "[SerialWrite ?c]"]) simp
    next
      case ok: True
      let ?w2 = "w\<lparr>trace := trace w @ [SerialWrite ?c, Sleep 10]\<rparr>"
      have cl: "call (SerialWrite ?c) (serial_write h i ?c) w = (Inr (), ?w1)"
        using ok by (simp add: call_def)
      have s: "snd (tell (Sleep 10) ?w1) = ?w2"
        by (simp add: tell_def)
      from True cl s have eq: "write_chunks h a i w = write_chunks h a (i + chunkSize) ?w2"
        by (subst write_chunks.simps) simp
      from "1.IH" [OF True cl [symmetric] refl] s
      obtain evs where evs: "snd (write_chunks h a (i + chunkSize) ?w2) = ?w2\<lparr>trace := trace ?w2 @ evs\<rparr>"
        "wc_facts h a (i + chunkSize) (fst (write_chunks h a (i + chunkSize) ?w2)) evs"
        by auto
      let ?r = "fst (write_chunks h a (i + chunkSize) ?w2)"
      have acc: "accepted_but_last h i (?c # serial_chunks evs) ?r HostError"
        unfolding accepted_but_last_def
      proof (intro allI impI)
        fix j
        assume j: "j < length (?c # serial_chunks evs)"
          and rej: "\<not> serial_write h (i + chunkSize * j) ((?c # serial_chunks evs) ! j)"
        show "Suc j = length (?c # serial_chunks evs) \<and> ?r = Inl HostError"
        proof (cases j)
          case 0
          with rej ok show ?thesis by simp
        next
          case (Suc k)
          with j rej have "k < length (serial_chunks evs)"
            "\<not> serial_write h (i + chunkSize + chunkSize * k) (serial_chunks evs ! k)"
            by (simp_all add: algebra_simps)
          with evs(2) have "Suc k = length (serial_chunks evs) \<and> ?r = Inl HostError"
            unfolding wc_facts_def accepted_but_last_def by blast
          with Suc show ?thesis by simp
        qed
      qed
      have "wc_facts h a i ?r (SerialWrite ?c # Sleep 10 # evs)"
        using evs(2) acc unfolding wc_facts_def ch by (simp add: wc_event_def)
      moreover have "snd (write_chunks h a (i + chunkSize) ?w2)
          = w\<lparr>trace := trace w @ (SerialWrite ?c # Sleep 10 # evs)\<rparr>"
        using evs(1) by simp
      ultimately show ?thesis unfolding eq by blast
    qed
  qed
qed

subsection \<open>\<open>printViaSerial\<close> and \<open>printViaBrowser\<close>\<close>

lemma serial_chunks_append: "serial_chunks (a @ b) = serial_chunks a @ serial_chunks b"
  by (induction a rule: serial_chunks.induct) simp_all

lemma invoked_append: "invoked (a @ b) = invoked a @ invoked b"
  by (induction a rule: invoked.induct) simp_all

lemma serial_chunks_none: "list_all (\<lambda>e. \<not> serial_write_event e) x \<Longrightarrow> serial_chunks x = []"
  by (induction x rule: serial_chunks.induct) simp_all

lemma invoked_none: "list_all plain x \<Longrightarrow> invoked x = []"
  by (induction x rule: invoked.induct) simp_all

lemma list_all_weaken: "list_all P x \<Longrightarrow> (\<And>e. P e \<Longrightarrow> Q e) \<Longrightarrow> list_all Q x"
  by (induction x) simp_all

lemma quiet_chunks: "list_all quiet_event x \<Longrightarrow> serial_chunks x = []"
  by (rule serial_chunks_none) (erule list_all_weaken, simp add: quiet_event_def)

lemma wc_event_plain: "wc_event e \<Longrightarrow> plain e \<and> \<not> delivery e"
  by (cases e) (simp_all add: wc_event_def)

lemma quiet_event_plain: "quiet_event e \<Longrightarrow> plain e \<and> \<not> delivery e"
  by (simp add: quiet_event_def)

lemma bind_assoc: "bind (bind m f) g = bind m (\<lambda>x. bind (f x) g)"
proof
  fix w
  show "bind (bind m f) g w = bind m (\<lambda>x. bind (f x) g) w"
    by (cases "m w") (simp add: bind_def split: sum.split)
qed

lemma bind_pure: "bind (pure x) f = f x"
  by (rule ext) (simp add: bind_def pure_def)

lemma bind_pure_right: "bind m (\<lambda>u. pure ()) = (m :: unit io)"
proof
  fix w
  show "bind m (\<lambda>u. pure ()) w = m w"
    by (cases "m w") (simp add: bind_def pure_def split: sum.split)
qed

lemma printViaSerial_eq:
  "printViaSerial h d =
     attempt Serial (try_catch (serial_inner h d) (\<lambda>error. throw (SerialPrintingFailed error)))"
  by (simp add: printViaSerial_def serial_inner_def serial_pre_def serial_post_def serial_send_def
      bind_assoc bind_pure)

lemma serial_pre_moves: "moves quiet_event (serial_pre h)" "quiet_clock (serial_pre h)"
proof -
  show "moves quiet_event (serial_pre h)"
    unfolding serial_pre_def
    by (intro moves_intros moves_call) (simp_all add: quiet_event_def)
  have qc: "quiet_clock (connect h bs)" for bs
    by (induction bs) (auto intro!: quiet_intros)
  show "quiet_clock (serial_pre h)"
    unfolding serial_pre_def by (intro quiet_intros qc)
qed

lemma serial_post_moves: "moves quiet_event (serial_post h)" "quiet_clock (serial_post h)"
  unfolding serial_post_def
  by (intro moves_intros moves_call quiet_intros; simp add: quiet_event_def)+

lemma quiet_movesD:
  assumes "moves P m" "quiet_clock m"
  obtains x where "list_all P x" "snd (m w) = w\<lparr>trace := trace w @ x\<rparr>"
proof -
  from assms(1) obtain x n where x: "list_all P x"
    "snd (m w) = w\<lparr>trace := trace w @ x, clock_reads := clock_reads w + n\<rparr>"
    by (rule movesD)
  from assms(2) have "clock_reads (snd (m w)) = clock_reads w"
    by (simp add: quiet_clock_def)
  with x(2) have "n = 0" by simp
  with x(2) have "snd (m w) = w\<lparr>trace := trace w @ x\<rparr>" by simp
  with x(1) show ?thesis by (rule that)
qed

lemma serial_body_facts:
  fixes h d w
  defines "p \<equiv> formatReceipt (number_engine h) (toLocaleString h (clock_reads w)) d"
  defines "body \<equiv> try_catch (serial_inner h d) (\<lambda>error. throw (SerialPrintingFailed error))"
  shows "\<exists>x n. snd (body w) = w\<lparr>trace := trace w @ x, clock_reads := clock_reads w + n\<rparr>
      \<and> serial_facts h p (fst (body w)) x"
proof -
  from serial_pre_moves [of h] obtain x1 where x1: "list_all quiet_event x1"
    "snd (serial_pre h w) = w\<lparr>trace := trace w @ x1\<rparr>"
    by (rule quiet_movesD)
  let ?w1 = "w\<lparr>trace := trace w @ x1\<rparr>"
  have c1: "serial_chunks x1 = []" using x1(1) by (rule quiet_chunks)
  have a1: "list_all (\<lambda>e. plain e \<and> \<not> delivery e) x1"
    using x1(1) by (rule list_all_weaken) (rule quiet_event_plain)
  show ?thesis
  proof (cases "fst (serial_pre h w)")
    case (Inl e)
    then have "body w = (Inl (SerialPrintingFailed e), ?w1)"
      by (simp add: body_def serial_inner_def try_catch_Inl bind_Inl throw_def x1)
    moreover have "serial_facts h p (Inl (SerialPrintingFailed e)) x1"
      by (simp add: serial_facts_def a1 c1 accepted_but_last_def)
    ultimately show ?thesis
      by (intro exI [of _ x1] exI [of _ 0]) simp
  next
    case (Inr u)
    let ?a = "utf8_encode p"
    let ?w2 = "?w1\<lparr>clock_reads := Suc (clock_reads w)\<rparr>"
    have send: "serial_send h d ?w1 = write_chunks h ?a 0 ?w2"
      by (simp add: serial_send_def formatReceipt_now_def bind_def read_clock_def pure_def p_def)
    from write_chunks_facts [of h ?a 0 ?w2]
    obtain evs where evs: "snd (write_chunks h ?a 0 ?w2) = ?w2\<lparr>trace := trace ?w2 @ evs\<rparr>"
      "wc_facts h ?a 0 (fst (write_chunks h ?a 0 ?w2)) evs"
      by blast
    let ?w3 = "?w2\<lparr>trace := trace ?w2 @ evs\<rparr>"
    have a2: "list_all (\<lambda>e. plain e \<and> \<not> delivery e) evs"
      using evs(2) unfolding wc_facts_def
      by (elim conjE) (erule list_all_weaken, rule wc_event_plain)
    from Inr have inner: "serial_inner h d w = bind (serial_send h d) (\<lambda>u. serial_post h) ?w1"
      by (simp add: serial_inner_def bind_Inr x1)
    show ?thesis
    proof (cases "fst (write_chunks h ?a 0 ?w2)")
      case (Inl e)
      with evs(2) have e: "e = HostError" by (simp add: wc_facts_def)
      from Inl have "body w = (Inl (SerialPrintingFailed HostError), ?w3)"
        by (simp add: body_def inner try_catch_Inl bind_Inl send throw_def evs(1) e)
      moreover have "serial_facts h p (Inl (SerialPrintingFailed HostError)) (x1 @ evs)"
        using evs(2) Inl e a1 a2 c1
        by (simp add: serial_facts_def wc_facts_def serial_chunks_append accepted_but_last_def)
      ultimately show ?thesis
        by (intro exI [of _ "x1 @ evs"] exI [of _ 1]) simp
    next
      case wr: (Inr u2)
      from serial_post_moves [of h] obtain x3 where x3: "list_all quiet_event x3"
        "snd (serial_post h ?w3) = ?w3\<lparr>trace := trace ?w3 @ x3\<rparr>"
        by (rule quiet_movesD)
      let ?w4 = "?w3\<lparr>trace := trace ?w3 @ x3\<rparr>"
      have c3: "serial_chunks x3 = []" using x3(1) by (rule quiet_chunks)
      have a3: "list_all (\<lambda>e. plain e \<and> \<not> delivery e) x3"
        using x3(1) by (rule list_all_weaken) (rule quiet_event_plain)
      have chunks: "serial_chunks (x1 @ evs @ x3) = chop chunkSize ?a"
        using evs(2) wr c1 c3 by (simp add: wc_facts_def serial_chunks_append)
      have acc: "accepted_but_last h 0 (serial_chunks (x1 @ evs @ x3)) r' err" for r' err
        using evs(2) wr c1 c3
        by (auto simp: wc_facts_def serial_chunks_append accepted_but_last_def)
      from wr have inner2: "serial_inner h d w = serial_post h ?w3"
        by (simp add: inner bind_Inr send evs(1))
      show ?thesis
      proof (cases "fst (serial_post h ?w3)")
        case (Inl e)
        then have "body w = (Inl (SerialPrintingFailed e), ?w4)"
          using x3(2) by (simp add: body_def inner2 try_catch_Inl throw_def)
        moreover have "serial_facts h p (Inl (SerialPrintingFailed e)) (x1 @ evs @ x3)"
          unfolding serial_facts_def using a1 a2 a3 chunks acc by simp
        ultimately show ?thesis
          by (intro exI [of _ "x1 @ evs @ x3"] exI [of _ 1]) simp
      next
        case (Inr u3)
        then have "body w = (Inr (), ?w4)"
          using x3(2) by (simp add: body_def inner2 try_catch_Inr)
        moreover have "serial_facts h p (Inr ()) (x1 @ evs @ x3)"
          unfolding serial_facts_def using a1 a2 a3 chunks acc by simp
        ultimately show ?thesis
          by (intro exI [of _ "x1 @ evs @ x3"] exI [of _ 1]) simp
      qed
    qed
  qed
qed

lemma printViaSerial_facts:
  fixes h d w
  defines "p \<equiv> formatReceipt (number_engine h) (toLocaleString h (clock_reads w)) d"
  defines "r \<equiv> fst (printViaSerial h d w)"
  shows "\<exists>x n. snd (printViaSerial h d w)
            = w\<lparr>trace := trace w @ segment Serial x r, clock_reads := clock_reads w + n\<rparr>
      \<and> serial_facts h p r x"
proof -
  let ?w1 = "w\<lparr>trace := trace w @ [Invoke Serial]\<rparr>"
  let ?body = "try_catch (serial_inner h d) (\<lambda>error. throw (SerialPrintingFailed error))"
  from serial_body_facts [of h d ?w1]
  obtain x n where x: "snd (?body ?w1) = ?w1\<lparr>trace := trace ?w1 @ x, clock_reads := clock_reads ?w1 + n\<rparr>"
    "serial_facts h p (fst (?body ?w1)) x"
    by (auto simp: p_def)
  have r: "r = fst (?body ?w1)"
    by (simp add: r_def printViaSerial_eq attempt_eq Let_def)
  have "snd (printViaSerial h d w)
            = w\<lparr>trace := trace w @ segment Serial x r, clock_reads := clock_reads w + n\<rparr>"
    by (simp add: r printViaSerial_eq attempt_eq Let_def x(1) segment_def)
  with x(2) r show ?thesis by blast
qed

lemma printViaBrowser_facts:
  fixes h d w
  defines "r \<equiv> fst (printViaBrowser h d w)"
  shows "\<exists>x. snd (printViaBrowser h d w)
            = w\<lparr>trace := trace w @ segment Browser x r, clock_reads := Suc (clock_reads w)\<rparr>
      \<and> list_all quiet_event x
      \<and> r = (if browser_throws h (toLocaleString h (clock_reads w)) d then Inl HostError else Inr ())"
proof (cases "window_open h")
  case OpenThrows
  then show ?thesis
    by (intro exI [of _ "[WindowOpen]"])
       (simp add: r_def printViaBrowser_def attempt_eq Let_def bind_def read_clock_def call_def
         segment_def quiet_event_def browser_throws_def)
next
  case OpenNull
  then show ?thesis
    by (intro exI [of _ "[WindowOpen]"])
       (simp add: r_def printViaBrowser_def attempt_eq Let_def bind_def read_clock_def tell_def
         segment_def quiet_event_def browser_throws_def)
next
  case OpenWindow
  let ?now = "toLocaleString h (clock_reads w)"
  show ?thesis
  proof (cases "document_write h ?now d")
    case False
    with OpenWindow show ?thesis
      by (intro exI [of _ "[WindowOpen, DocumentWrite ?now d]"])
         (simp add: r_def printViaBrowser_def attempt_eq Let_def bind_def read_clock_def tell_def
           call_def segment_def quiet_event_def browser_throws_def)
  next
    case True
    with OpenWindow show ?thesis
      by (intro exI [of _ "[WindowOpen, DocumentWrite ?now d, DocumentClose]"])
         (simp add: r_def printViaBrowser_def attempt_eq Let_def bind_def read_clock_def tell_def
           call_def pure_def segment_def quiet_event_def browser_throws_def)
  qed
qed

subsection \<open>Resolutions\<close>

lemma unresolved_append [simp]: "unresolved (a @ b) = (unresolved a \<and> unresolved b)"
  by (auto simp: unresolved_def)

lemma unresolved_Nil [simp]: "unresolved []"
  by (simp add: unresolved_def)

lemma unresolved_Cons [simp]: "unresolved (e # evs) = ((\<forall>s. e \<noteq> Resolved s) \<and> unresolved evs)"
  by (auto simp: unresolved_def)

lemma unresolved_plain: "list_all plain x \<Longrightarrow> unresolved x"
  by (induction x) auto

lemma ends_resolved_append: "unresolved a \<Longrightarrow> ends_resolved b \<Longrightarrow> ends_resolved (a @ b)"
  unfolding ends_resolved_def
proof -
  assume a: "unresolved a" and "\<exists>pre s. b = pre @ [Resolved s] \<and> unresolved pre"
  then obtain pre s where "b = pre @ [Resolved s]" "unresolved pre" by blast
  with a have "a @ b = (a @ pre) @ [Resolved s] \<and> unresolved (a @ pre)" by simp
  then show "\<exists>pre s. a @ b = pre @ [Resolved s] \<and> unresolved pre" by blast
qed

lemma ends_resolved_Cons: "(\<forall>s. e \<noteq> Resolved s) \<Longrightarrow> ends_resolved b \<Longrightarrow> ends_resolved (e # b)"
  using ends_resolved_append [of "[e]" b] by simp

lemma segment_rejected: "list_all plain x \<Longrightarrow> unresolved (segment s x (Inl e))"
  by (simp add: segment_def settled_def unresolved_plain)

lemma segment_resolved: "list_all plain x \<Longrightarrow> ends_resolved (segment s x (Inr ()))"
  unfolding ends_resolved_def segment_def settled_def
proof -
  assume "list_all plain x"
  then have "Invoke s # x @ [case Inr () of Inl e \<Rightarrow> Rejected s e | Inr u \<Rightarrow> Resolved s]
      = (Invoke s # x) @ [Resolved s] \<and> unresolved (Invoke s # x)"
    by (simp add: unresolved_plain)
  then show "\<exists>pre sa. Invoke s # x @ [case Inr () of Inl e \<Rightarrow> Rejected s e | Inr u \<Rightarrow> Resolved s]
      = pre @ [Resolved sa] \<and> unresolved pre"
    by blast
qed

lemma invoked_segment: "list_all plain x \<Longrightarrow> invoked (segment s x r) = [s]"
  by (cases r) (simp_all add: segment_def settled_def invoked_append invoked_none)


subsection \<open>The loop over the methods\<close>

lemma methods_result:
  "methods_shape P ss r evs \<Longrightarrow> r = Inr () \<or> r = Inl AllPOSMethodsFailed"
  by (induction ss arbitrary: evs) auto

lemma methods_unresolved:
  assumes "\<And>e. P e \<Longrightarrow> plain e"
  shows "methods_shape P ss r evs \<Longrightarrow>
     (r = Inr () \<longrightarrow> ends_resolved evs) \<and> (r \<noteq> Inr () \<longrightarrow> unresolved evs)"
proof (induction ss arbitrary: evs)
  case Nil
  then show ?case by simp
next
  case (Cons s ss)
  from Cons.prems consider
    (res) x where "r = Inr ()" "list_all P x" "evs = segment s x (Inr ())"
    | (rej) x e rest where "list_all P x" "evs = segment s x (Inl e) @ ConsoleLog_method e # rest"
        "methods_shape P ss r rest"
    by auto
  then show ?case
  proof cases
    case res
    from res(2) have "list_all plain x" by (rule list_all_weaken) (rule assms)
    with res show ?thesis by (simp add: segment_resolved)
  next
    case rej
    from rej(1) have "list_all plain x" by (rule list_all_weaken) (rule assms)
    then have u: "unresolved (segment s x (Inl e))" by (rule segment_rejected)
    from Cons.IH [OF rej(3)] have ih: "r = Inr () \<longrightarrow> ends_resolved rest" "r \<noteq> Inr () \<longrightarrow> unresolved rest"
      by auto
    show ?thesis
    proof (intro conjI impI)
      assume "r = Inr ()"
      with ih have "ends_resolved (ConsoleLog_method e # rest)" by (simp add: ends_resolved_Cons)
      with u show "ends_resolved evs" unfolding rej(2) by (rule ends_resolved_append)
    next
      assume "r \<noteq> Inr ()"
      with ih u show "unresolved evs" unfolding rej(2) by simp
    qed
  qed
qed

lemma methods_invoked:
  assumes "\<And>e. P e \<Longrightarrow> plain e"
  shows "methods_shape P ss r evs \<Longrightarrow>
     prefix (invoked evs) ss \<and> (r \<noteq> Inr () \<longrightarrow> invoked evs = ss) \<and> (ss \<noteq> [] \<longrightarrow> invoked evs \<noteq> [])"
proof (induction ss arbitrary: evs)
  case Nil
  then show ?case by simp
next
  case (Cons s ss)
  from Cons.prems consider
    (res) x where "r = Inr ()" "list_all P x" "evs = segment s x (Inr ())"
    | (rej) x e rest where "list_all P x" "evs = segment s x (Inl e) @ ConsoleLog_method e # rest"
        "methods_shape P ss r rest"
    by auto
  then show ?case
  proof cases
    case res
    from res(2) have "list_all plain x" by (rule list_all_weaken) (rule assms)
    with res show ?thesis by (simp add: invoked_segment)
  next
    case rej
    from rej(1) have "list_all plain x" by (rule list_all_weaken) (rule assms)
    then have "invoked evs = s # invoked rest"
      unfolding rej(2) by (simp add: invoked_append invoked_segment)
    with Cons.IH [OF rej(3)] show ?thesis by simp
  qed
qed

lemma methods_list_all:
  assumes "\<And>e. P e \<Longrightarrow> Q e" "\<And>e. \<not> plain e \<Longrightarrow> Q e" "\<And>e. Q (ConsoleLog_method e)"
  shows "methods_shape P ss r evs \<Longrightarrow> list_all Q evs"
proof (induction ss arbitrary: evs)
  case Nil
  then show ?case by simp
next
  case (Cons s ss)
  have seg: "list_all Q (segment s x r')" if "list_all P x" for x r'
  proof -
    from that have "list_all Q x" by (rule list_all_weaken) (rule assms(1))
    then show ?thesis by (cases r') (simp_all add: segment_def settled_def assms(2))
  qed
  from Cons.prems consider
    (res) x where "r = Inr ()" "list_all P x" "evs = segment s x (Inr ())"
    | (rej) x e rest where "list_all P x" "evs = segment s x (Inl e) @ ConsoleLog_method e # rest"
        "methods_shape P ss r rest"
    by auto
  then show ?case
  proof cases
    case res
    with seg show ?thesis by simp
  next
    case rej
    with seg Cons.IH [OF rej(3)] assms(3) show ?thesis by simp
  qed
qed

lemma methods_rejections:
  assumes "\<And>e. P e \<Longrightarrow> plain e"
  shows "methods_shape P ss r evs \<Longrightarrow> r \<noteq> Inr () \<Longrightarrow>
     \<forall>s \<in> set ss. \<exists>e. Rejected s e \<in> set evs"
proof (induction ss arbitrary: evs)
  case Nil
  then show ?case by simp
next
  case (Cons s ss)
  from Cons.prems obtain x e rest where rej: "list_all P x"
    "evs = segment s x (Inl e) @ ConsoleLog_method e # rest" "methods_shape P ss r rest"
    by auto
  have "Rejected s e \<in> set evs"
    unfolding rej(2) by (simp add: segment_def settled_def)
  moreover from Cons.IH [OF rej(3) Cons.prems(2)] have "\<forall>t \<in> set ss. \<exists>e. Rejected t e \<in> set evs"
    unfolding rej(2) by auto
  ultimately show ?case by auto
qed

lemma pos_event_plain: "pos_event p e \<Longrightarrow> plain e"
  by (simp add: pos_event_def)

subsection \<open>The cases of a run of \<open>print\<close>\<close>

lemma world_swap:
  "(w :: world)\<lparr>clock_reads := c, trace := t\<rparr> = w\<lparr>trace := t, clock_reads := c\<rparr>"
  by simp

lemma cases_of_print:
  fixes h d w
  defines "p0 \<equiv> formatReceipt (number_engine h) (toLocaleString h (clock_reads w)) d"
  defines "p1 \<equiv> formatReceipt (number_engine h) (toLocaleString h (Suc (clock_reads w))) d"
  defines "r \<equiv> fst (print h d w)"
  defines "E \<equiv> events_since w (snd (print h d w))"
  obtains
    (pos) "r = Inr ()" "methods_shape (pos_event p0) pos_strategies (Inr ()) E"
  | (serial) evs x5 where "serial_in_navigator h" "r = Inr ()"
      "methods_shape (pos_event p0) pos_strategies (Inl AllPOSMethodsFailed) evs"
      "serial_facts h p1 (Inr ()) x5"
      "E = evs @ ConsoleError_POS AllPOSMethodsFailed # segment Serial x5 (Inr ())"
  | (browser) evs x5 e5 x6 now where "serial_in_navigator h"
      "methods_shape (pos_event p0) pos_strategies (Inl AllPOSMethodsFailed) evs"
      "serial_facts h p1 (Inl e5) x5" "list_all quiet_event x6"
      "r = (if browser_throws h now d then Inl HostError else Inr ())"
      "E = evs @ ConsoleError_POS AllPOSMethodsFailed # segment Serial x5 (Inl e5)
             @ ConsoleError_Serial e5 # segment Browser x6 r"
  | (browser_only) evs x6 now where "\<not> serial_in_navigator h"
      "methods_shape (pos_event p0) pos_strategies (Inl AllPOSMethodsFailed) evs"
      "list_all quiet_event x6"
      "r = (if browser_throws h now d then Inl HostError else Inr ())"
      "E = evs @ ConsoleError_POS AllPOSMethodsFailed # ConsoleError_Serial SerialNotAvailable
             # segment Browser x6 r"
proof -
  let ?k = "clock_reads w"
  from printViaPOSCommand_shape [of h d w]
  obtain evs where evs: "snd (printViaPOSCommand h d w) = w\<lparr>trace := trace w @ evs, clock_reads := Suc ?k\<rparr>"
    "methods_shape (pos_event p0) pos_strategies (fst (printViaPOSCommand h d w)) evs"
    by (auto simp: p0_def)
  let ?wp = "w\<lparr>trace := trace w @ evs, clock_reads := Suc ?k\<rparr>"
  from evs(2) have res: "fst (printViaPOSCommand h d w) = Inr ()
      \<or> fst (printViaPOSCommand h d w) = Inl AllPOSMethodsFailed"
    by (rule methods_result)
  show ?thesis
  proof (cases "fst (printViaPOSCommand h d w)")
    case (Inr u)
    then have "print h d w = (Inr (), ?wp)"
      using evs(1) by (simp add: print_def try_catch_Inr)
    then have "r = Inr ()" "E = evs"
      by (simp_all add: r_def E_def events_since_def)
    with evs(2) Inr show ?thesis by (intro pos) simp_all
  next
    case (Inl e)
    with res have e: "e = AllPOSMethodsFailed" by simp
    let ?w1 = "w\<lparr>trace := trace w @ evs @ [ConsoleError_POS AllPOSMethodsFailed], clock_reads := Suc ?k\<rparr>"
    let ?rest = "try_catch
           (if serial_in_navigator h then printViaSerial h d else throw SerialNotAvailable)
           (\<lambda>serialError.
              bind (tell (ConsoleError_Serial serialError)) (\<lambda>u. printViaBrowser h d))"
    have pr: "print h d w = ?rest ?w1"
    proof -
      let ?v = "snd (printViaPOSCommand h d w)"
      have weq: "?v\<lparr>trace := trace ?v @ [ConsoleError_POS AllPOSMethodsFailed]\<rparr> = ?w1"
        using evs(1) by simp
      from Inl e have "print h d w
          = ?rest (?v\<lparr>trace := trace ?v @ [ConsoleError_POS AllPOSMethodsFailed]\<rparr>)"
        by (simp add: print_def try_catch_Inl bind_def tell_def)
      then show ?thesis unfolding weq .
    qed
    from Inl e evs(2) have ms: "methods_shape (pos_event p0) pos_strategies (Inl AllPOSMethodsFailed) evs"
      by simp
    show ?thesis
    proof (cases "serial_in_navigator h")
      case False
      let ?w2 = "?w1\<lparr>trace := trace ?w1 @ [ConsoleError_Serial SerialNotAvailable]\<rparr>"
      from False have pr2: "print h d w = printViaBrowser h d ?w2"
        by (simp add: pr try_catch_def throw_def bind_def tell_def)
      from printViaBrowser_facts [of h d ?w2]
      obtain x6 where x6: "snd (printViaBrowser h d ?w2)
            = ?w2\<lparr>trace := trace ?w2 @ segment Browser x6 (fst (printViaBrowser h d ?w2)),
                 clock_reads := Suc (clock_reads ?w2)\<rparr>"
        "list_all quiet_event x6"
        "fst (printViaBrowser h d ?w2)
           = (if browser_throws h (toLocaleString h (clock_reads ?w2)) d then Inl HostError else Inr ())"
        by blast
      have "E = evs @ ConsoleError_POS AllPOSMethodsFailed # ConsoleError_Serial SerialNotAvailable
             # segment Browser x6 r"
        using x6(1) by (simp add: E_def r_def pr2 events_since_def)
      with False ms x6(2) x6(3) show ?thesis
        by (intro browser_only [where evs = evs and ?x6.0 = x6]) (simp_all add: r_def pr2)
    next
      case True
      from True have pr2: "print h d w = try_catch (printViaSerial h d) (\<lambda>serialError.
              bind (tell (ConsoleError_Serial serialError)) (\<lambda>u. printViaBrowser h d)) ?w1"
        by (simp add: pr)
      from printViaSerial_facts [of h d ?w1]
      obtain x5 n where x5: "snd (printViaSerial h d ?w1)
            = ?w1\<lparr>trace := trace ?w1 @ segment Serial x5 (fst (printViaSerial h d ?w1)),
                  clock_reads := clock_reads ?w1 + n\<rparr>"
        "serial_facts h p1 (fst (printViaSerial h d ?w1)) x5"
        by (auto simp: p1_def)
      show ?thesis
      proof (cases "fst (printViaSerial h d ?w1)")
        case (Inr u)
        then have "print h d w = (Inr (), snd (printViaSerial h d ?w1))"
          by (simp add: pr2 try_catch_Inr)
        with x5(1) Inr have "r = Inr ()"
          "E = evs @ ConsoleError_POS AllPOSMethodsFailed # segment Serial x5 (Inr ())"
          by (simp_all add: r_def E_def events_since_def)
        with True ms x5(2) Inr show ?thesis
          by (intro serial [where evs = evs and ?x5.0 = x5]) simp_all
      next
        case (Inl e5)
        let ?w2 = "?w1\<lparr>trace := trace ?w1 @ segment Serial x5 (Inl e5) @ [ConsoleError_Serial e5],
                  clock_reads := clock_reads ?w1 + n\<rparr>"
        from Inl x5(1) have pr3: "print h d w = printViaBrowser h d ?w2"
          by (simp add: pr2 try_catch_Inl bind_def tell_def world_swap)
        from printViaBrowser_facts [of h d ?w2]
        obtain x6 where x6: "snd (printViaBrowser h d ?w2)
            = ?w2\<lparr>trace := trace ?w2 @ segment Browser x6 (fst (printViaBrowser h d ?w2)),
                 clock_reads := Suc (clock_reads ?w2)\<rparr>"
          "list_all quiet_event x6"
          "fst (printViaBrowser h d ?w2)
           = (if browser_throws h (toLocaleString h (clock_reads ?w2)) d then Inl HostError else Inr ())"
          by blast
        have "E = evs @ ConsoleError_POS AllPOSMethodsFailed # segment Serial x5 (Inl e5)
             @ ConsoleError_Serial e5 # segment Browser x6 r"
          using x6(1) by (simp add: E_def r_def pr3 events_since_def)
        with True ms x5(2) Inl x6(2) x6(3) show ?thesis
          by (intro browser [where evs = evs and ?x5.0 = x5 and ?e5.0 = e5 and ?x6.0 = x6])
             (simp_all add: r_def pr3)
      qed
    qed
  qed
qed

section \<open>The order of the strategies\<close>

lemma serial_facts_plain: "serial_facts h p r x \<Longrightarrow> list_all plain x"
  unfolding serial_facts_def by (elim conjE) (erule list_all_weaken, simp)

lemma quiet_plain: "list_all quiet_event x \<Longrightarrow> list_all plain x"
  by (erule list_all_weaken) (simp add: quiet_event_def)


lemma pos_invoked:
  assumes "methods_shape (pos_event p) pos_strategies r evs"
  shows "prefix (invoked evs) pos_strategies" "r \<noteq> Inr () \<Longrightarrow> invoked evs = pos_strategies"
    "invoked evs \<noteq> []"
  using methods_invoked [of "pos_event p" pos_strategies r evs, OF pos_event_plain assms]
  by (simp_all add: pos_strategies_def)

lemma pos_unresolved:
  assumes "methods_shape (pos_event p) pos_strategies r evs"
  shows "r = Inr () \<Longrightarrow> ends_resolved evs" "r \<noteq> Inr () \<Longrightarrow> unresolved evs"
  using methods_unresolved [of "pos_event p" pos_strategies r evs, OF pos_event_plain assms]
  by simp_all


lemma print_resolution:
  "(fst (print h d w) = Inr () \<longrightarrow> ends_resolved (events_since w (snd (print h d w))))
   \<and> (fst (print h d w) \<noteq> Inr () \<longrightarrow> unresolved (events_since w (snd (print h d w))))"
proof (cases rule: cases_of_print [of h d w])
  case pos
  with pos_unresolved(1) [OF pos(2)] show ?thesis by simp
next
  case (serial evs x5)
  have "ends_resolved (segment Serial x5 (Inr ()))"
    using serial_facts_plain [OF serial(4)] by (rule segment_resolved)
  then have "ends_resolved (ConsoleError_POS AllPOSMethodsFailed # segment Serial x5 (Inr ()))"
    by (intro ends_resolved_Cons) simp_all
  with pos_unresolved(2) [OF serial(3)] serial(2) show ?thesis
    unfolding serial(5) by (simp add: ends_resolved_append)
next
  case (browser evs x5 e5 x6 now)
  have u5: "unresolved (segment Serial x5 (Inl e5))"
    using serial_facts_plain [OF browser(3)] by (rule segment_rejected)
  have u: "unresolved (evs @ ConsoleError_POS AllPOSMethodsFailed # segment Serial x5 (Inl e5)
      @ [ConsoleError_Serial e5])"
    using pos_unresolved(2) [OF browser(2)] u5 by simp
  let ?r = "fst (print h d w)"
  show ?thesis
  proof (cases "?r")
    case (Inr u1)
    then have "ends_resolved (segment Browser x6 ?r)"
      using quiet_plain [OF browser(4)] by (simp add: segment_resolved)
    with u have "ends_resolved ((evs @ ConsoleError_POS AllPOSMethodsFailed # segment Serial x5 (Inl e5)
      @ [ConsoleError_Serial e5]) @ segment Browser x6 ?r)"
      by (rule ends_resolved_append)
    with Inr show ?thesis unfolding browser(6) by simp
  next
    case (Inl e)
    then have "unresolved (segment Browser x6 ?r)"
      using quiet_plain [OF browser(4)] by (simp add: segment_rejected)
    with u Inl show ?thesis unfolding browser(6) by simp
  qed
next
  case (browser_only evs x6 now)
  have u: "unresolved (evs @ [ConsoleError_POS AllPOSMethodsFailed,
      ConsoleError_Serial SerialNotAvailable])"
    using pos_unresolved(2) [OF browser_only(2)] by simp
  let ?r = "fst (print h d w)"
  show ?thesis
  proof (cases "?r")
    case (Inr u1)
    then have "ends_resolved (segment Browser x6 ?r)"
      using quiet_plain [OF browser_only(3)] by (simp add: segment_resolved)
    with u have "ends_resolved ((evs @ [ConsoleError_POS AllPOSMethodsFailed,
      ConsoleError_Serial SerialNotAvailable]) @ segment Browser x6 ?r)"
      by (rule ends_resolved_append)
    with Inr show ?thesis unfolding browser_only(5) by simp
  next
    case (Inl e)
    then have "unresolved (segment Browser x6 ?r)"
      using quiet_plain [OF browser_only(3)] by (simp add: segment_rejected)
    with u Inl show ?thesis unfolding browser_only(5) by simp
  qed
qed












subsection \<open>Runs on the hosts of the scenarios\<close>

lemmas run_defs = print_def printViaPOSCommand_def formatReceipt_now_def bind_def read_clock_def
  pure_def printViaWebUSB_def printViaAndroidIntent_def printViaWindowsPrint_def
  printViaRawSocket_def attempt_def tell_def try_catch_def throw_def call_def printerIPs_def
  printViaBrowser_def start_def

lemma url_1: "js ''http://'' @ js ''192.168.1.100'' @ js '':9100'' = js ''http://192.168.1.100:9100''"
  and url_2: "js ''http://'' @ js ''192.168.0.100'' @ js '':9100'' = js ''http://192.168.0.100:9100''"
  and url_3: "js ''http://'' @ js ''10.0.0.100'' @ js '':9100'' = js ''http://10.0.0.100:9100''"
  by (simp_all add: js_def)


lemma dead_host_run:
  "print dead_host d start =
     (Inr (),
      \<lparr>trace =
         [Invoke WebUSB, Rejected WebUSB WebUSBNotSupported, ConsoleLog_method WebUSBNotSupported,
          Invoke AndroidIntent, Rejected AndroidIntent AndroidNotAvailable,
          ConsoleLog_method AndroidNotAvailable,
          Invoke WindowsPrint, Rejected WindowsPrint WindowsNotAvailable,
          ConsoleLog_method WindowsNotAvailable,
          Invoke RawSocket,
          Fetch (js ''http://192.168.1.100:9100'') (formatReceipt no_engine sample_now d),
          Fetch (js ''http://192.168.0.100:9100'') (formatReceipt no_engine sample_now d),
          Fetch (js ''http://10.0.0.100:9100'') (formatReceipt no_engine sample_now d),
          Rejected RawSocket RawSocketFailed, ConsoleLog_method RawSocketFailed,
          ConsoleError_POS AllPOSMethodsFailed, ConsoleError_Serial SerialNotAvailable,
          Invoke Browser, WindowOpen, Resolved Browser],
       clock_reads = 2\<rparr>)"
  by (simp add: run_defs dead_host_def url_1 url_2 url_3)


lemma throwing_host_run:
  "fst (print throwing_host d start) = Inl HostError"
  by (simp add: run_defs throwing_host_def dead_host_def url_1 url_2 url_3)

lemma events_since_start: "events_since start w = trace w"
  by (simp add: events_since_def start_def)


section \<open>Overall failure\<close>

text \<open>
  On every host whose \<open>window.open\<close> returns \<open>null\<close>, \<open>print\<close> resolves.
\<close>

lemma print_null_window: "window_open h = OpenNull \<Longrightarrow> fst (print h d w) = Inr ()"
  by (cases rule: cases_of_print [of h d w]) (simp_all add: browser_throws_def)

lemma segment_last: "last (segment s x r) = settled s r"
  by (simp add: segment_def)

lemma segment_ne: "segment s x r \<noteq> []"
  by (simp add: segment_def)

lemma rejected_in_segment: "Rejected s e \<in> set (segment s x (Inl e))"
  by (simp add: segment_def settled_def)

lemma pos_rejections:
  assumes "methods_shape (pos_event p) pos_strategies (Inl AllPOSMethodsFailed) evs"
  shows "\<forall>s \<in> set pos_strategies. \<exists>e. Rejected s e \<in> set evs"
  using methods_rejections [of "pos_event p" pos_strategies "Inl AllPOSMethodsFailed" evs,
      OF pos_event_plain assms]
  by simp

lemma print_failure:
  assumes "fst (print h d w) = Inl e"
  shows "e = HostError \<and> (\<exists>now. browser_throws h now d)
    \<and> last (events_since w (snd (print h d w))) = Rejected Browser HostError
    \<and> (\<forall>s \<in> set (invoked (events_since w (snd (print h d w)))).
          \<exists>e'. Rejected s e' \<in> set (events_since w (snd (print h d w))))"
proof (cases rule: cases_of_print [of h d w])
  case pos
  with assms show ?thesis by simp
next
  case (serial evs x5)
  with assms show ?thesis by simp
next
  case (browser evs x5 e5 x6 now)
  from browser(5) assms have bt: "browser_throws h now d" and e: "e = HostError"
    by (simp_all split: if_splits)
  have inv: "invoked (events_since w (snd (print h d w))) = pos_strategies @ [Serial, Browser]"
    using pos_invoked(2) [OF browser(2)] serial_facts_plain [OF browser(3)]
      quiet_plain [OF browser(4)]
    unfolding browser(6) by (simp add: invoked_append invoked_segment)
  have rej: "\<forall>s \<in> set (pos_strategies @ [Serial, Browser]).
      \<exists>e'. Rejected s e' \<in> set (events_since w (snd (print h d w)))"
    using pos_rejections [OF browser(2)] rejected_in_segment [of Serial e5 x5]
      rejected_in_segment [of Browser e x6] assms
    unfolding browser(6) by auto
  have "last (events_since w (snd (print h d w))) = Rejected Browser HostError"
    unfolding browser(6) using assms e by (simp add: segment_last segment_ne settled_def)
  with bt e inv rej show ?thesis by auto
next
  case (browser_only evs x6 now)
  from browser_only(4) assms have bt: "browser_throws h now d" and e: "e = HostError"
    by (simp_all split: if_splits)
  have inv: "invoked (events_since w (snd (print h d w))) = pos_strategies @ [Browser]"
    using pos_invoked(2) [OF browser_only(2)] quiet_plain [OF browser_only(3)]
    unfolding browser_only(5) by (simp add: invoked_append invoked_segment)
  have rej: "\<forall>s \<in> set (pos_strategies @ [Browser]).
      \<exists>e'. Rejected s e' \<in> set (events_since w (snd (print h d w)))"
    using pos_rejections [OF browser_only(2)] rejected_in_segment [of Browser e x6] assms
    unfolding browser_only(5) by auto
  have "last (events_since w (snd (print h d w))) = Rejected Browser HostError"
    unfolding browser_only(5) using assms e by (simp add: segment_last segment_ne settled_def)
  with bt e inv rej show ?thesis by auto
qed

lemma ends_resolved_has: "ends_resolved evs \<Longrightarrow> \<exists>s. Resolved s \<in> set evs"
  by (auto simp: ends_resolved_def)

text \<open>
  C1 does not hold of the code. Every other strategy throws when its mechanism is
  missing, but \<open>printViaBrowser\<close> skips its body and returns when \<open>window.open\<close>
  returns \<open>null\<close>. On the host where every device, bridge, network and serial strategy
  fails and no print window can be created, nothing is printed and yet \<open>print\<close>
  resolves, where C1 asks for a failure: the run ends with the browser strategy resolved
  after \<open>window.open\<close> alone.
\<close>

theorem dead_host_print_resolves:
  "window_open dead_host = OpenNull
   \<and> print dead_host turmeric_sale start =
     (Inr (),
      \<lparr>trace =
         [Invoke WebUSB, Rejected WebUSB WebUSBNotSupported, ConsoleLog_method WebUSBNotSupported,
          Invoke AndroidIntent, Rejected AndroidIntent AndroidNotAvailable,
          ConsoleLog_method AndroidNotAvailable,
          Invoke WindowsPrint, Rejected WindowsPrint WindowsNotAvailable,
          ConsoleLog_method WindowsNotAvailable,
          Invoke RawSocket,
          Fetch (js ''http://192.168.1.100:9100'') (formatReceipt no_engine sample_now turmeric_sale),
          Fetch (js ''http://192.168.0.100:9100'') (formatReceipt no_engine sample_now turmeric_sale),
          Fetch (js ''http://10.0.0.100:9100'') (formatReceipt no_engine sample_now turmeric_sale),
          Rejected RawSocket RawSocketFailed, ConsoleLog_method RawSocketFailed,
          ConsoleError_POS AllPOSMethodsFailed, ConsoleError_Serial SerialNotAvailable,
          Invoke Browser, WindowOpen, Resolved Browser],
       clock_reads = 2\<rparr>)"
  by (simp add: dead_host_run) (simp add: dead_host_def)

text \<open>
  \<open>print\<close> rejects exactly when no strategy resolved in the run. It builds no
  aggregate of the failures: when it rejects, the error is the one thrown inside the
  browser fallback (\<open>window.open\<close>, \<open>document.write\<close> or \<open>document.close\<close> threw),
  the last event of the run is the rejection of the browser strategy, and every strategy
  that was invoked was rejected.
\<close>

theorem print_rejects_iff_unresolved:
  assumes "print h d w = (r, w')"
  shows "((\<exists>e. r = Inl e) \<longleftrightarrow> (\<forall>s. Resolved s \<notin> set (events_since w w')))
    \<and> (\<forall>e. r = Inl e \<longrightarrow>
          e = HostError \<and> (\<exists>now. browser_throws h now d)
          \<and> last (events_since w w') = Rejected Browser HostError
          \<and> (\<forall>s \<in> set (invoked (events_since w w')). \<exists>e'. Rejected s e' \<in> set (events_since w w')))"
proof -
  from assms have r: "r = fst (print h d w)" and w': "w' = snd (print h d w)" by simp_all
  have 1: "(\<exists>e. r = Inl e) \<longleftrightarrow> (\<forall>s. Resolved s \<notin> set (events_since w w'))"
  proof
    assume "\<exists>e. r = Inl e"
    then have "r \<noteq> Inr ()" by auto
    with print_resolution [of h d w] have "unresolved (events_since w w')"
      by (simp add: r w')
    then show "\<forall>s. Resolved s \<notin> set (events_since w w')" by (simp add: unresolved_def)
  next
    assume n: "\<forall>s. Resolved s \<notin> set (events_since w w')"
    show "\<exists>e. r = Inl e"
    proof (cases r)
      case (Inl e)
      then show ?thesis by blast
    next
      case (Inr u)
      with print_resolution [of h d w] have "ends_resolved (events_since w w')"
        by (simp add: r w')
      with n ends_resolved_has show ?thesis by blast
    qed
  qed
  have 2: "\<forall>e. r = Inl e \<longrightarrow>
          e = HostError \<and> (\<exists>now. browser_throws h now d)
          \<and> last (events_since w w') = Rejected Browser HostError
          \<and> (\<forall>s \<in> set (invoked (events_since w w')). \<exists>e'. Rejected s e' \<in> set (events_since w w'))"
    using print_failure [of h d w] unfolding r w' by blast
  from 1 2 show ?thesis by blast
qed

theorem print_rejects_iff_unresolved_witness:
  "fst (print throwing_host turmeric_sale start) = Inl HostError
   \<and> browser_throws throwing_host sample_now turmeric_sale
   \<and> last (events_since start (snd (print throwing_host turmeric_sale start)))
       = Rejected Browser HostError"
proof -
  have c: "fst (print throwing_host turmeric_sale start) = Inl HostError"
    by (rule throwing_host_run)
  have p2: "print throwing_host turmeric_sale start
      = (Inl HostError, snd (print throwing_host turmeric_sale start))"
    using c by (simp add: prod_eq_iff)
  from print_rejects_iff_unresolved [OF p2]
  have d: "last (events_since start (snd (print throwing_host turmeric_sale start)))
       = Rejected Browser HostError"
    by blast
  have e: "browser_throws throwing_host sample_now turmeric_sale"
    by (simp add: browser_throws_def throwing_host_def)
  from c d e show ?thesis by blast
qed

section \<open>The chunks written to the serial port\<close>

lemma serial_chunks_segment: "serial_chunks (segment s x r) = serial_chunks x"
  by (cases r) (simp_all add: segment_def settled_def serial_chunks_append)

lemma serial_chunks_writes: "serial_chunks (writes a) = chop chunkSize a"
proof -
  have "serial_chunks (concat (map (\<lambda>c. [SerialWrite c, Sleep 10]) cs)) = cs" for cs
    by (induction cs) simp_all
  then show ?thesis by (simp add: writes_def)
qed

lemma reliable_writes:
  assumes "\<And>i c. serial_write h i c"
  shows "write_chunks h a i w = (Inr (), w\<lparr>trace := trace w @ writes (drop i a)\<rparr>)"
  using assms
proof (induction h a i w rule: write_chunks.induct)
  case (1 h a i w)
  show ?case
  proof (cases "i < length a")
    case False
    then show ?thesis
      by (subst write_chunks.simps) (simp add: writes_def)
  next
    case True
    let ?c = "slice a i (i + chunkSize)"
    let ?w1 = "w\<lparr>trace := trace w @ [SerialWrite ?c]\<rparr>"
    have c: "call (SerialWrite ?c) (serial_write h i ?c) w = (Inr (), ?w1)"
      using "1.prems" by (simp add: call_def)
    have ne: "drop i a \<noteq> []" using True by simp
    have ch: "chop chunkSize (drop i a) = ?c # chop chunkSize (drop (i + chunkSize) a)"
      using chop_step [of chunkSize "drop i a"] ne
      by (simp add: chunkSize_def slice_def add.commute)
    have "write_chunks h a i w
        = write_chunks h a (i + chunkSize) (snd (tell (Sleep 10) ?w1))"
      using True c by (subst write_chunks.simps) simp
    also have "\<dots> = (Inr (), (snd (tell (Sleep 10) ?w1))
         \<lparr>trace := trace (snd (tell (Sleep 10) ?w1)) @ writes (drop (i + chunkSize) a)\<rparr>)"
      using "1.IH" [OF True c [symmetric] refl] "1.prems" by simp
    also have "\<dots> = (Inr (), w\<lparr>trace := trace w @ writes (drop i a)\<rparr>)"
      by (simp add: tell_def writes_def ch)
    finally show ?thesis .
  qed
qed

lemma flaky_writes:
  assumes "64 < length a"
  shows "write_chunks flaky_host a 0 w
    = (Inl HostError,
       w\<lparr>trace := trace w @ [SerialWrite (take 64 a), Sleep 10, SerialWrite (take 64 (drop 64 a))]\<rparr>)"
proof -
  have f: "serial_write flaky_host = (\<lambda>i c. i \<noteq> 64)"
    by (simp add: flaky_host_def serial_host_with_def)
  have 2: "write_chunks flaky_host a 64 w' =
      (Inl HostError, w'\<lparr>trace := trace w' @ [SerialWrite (take 64 (drop 64 a))]\<rparr>)" for w'
    using assms
    by (subst write_chunks.simps) (simp add: call_def slice_def chunkSize_def f)
  from assms have ne: "a \<noteq> []" by auto
  show ?thesis
    using assms ne
    by (subst write_chunks.simps) (simp add: call_def tell_def slice_def chunkSize_def f 2)
qed

lemma utf8_of_codepoint_length: "Suc 0 \<le> length (utf8_of_codepoint cp)"
  by (simp add: utf8_of_codepoint_def)

lemma utf8_encode_length: "length s \<le> length (utf8_encode s)"
proof (induction s rule: utf8_encode.induct)
  case 1
  show ?case by simp
next
  case (2 c)
  show ?case using utf8_of_codepoint_length [of "scalar c"] by simp
next
  case (3 c d cs)
  show ?case
  proof (cases "is_high c \<and> is_low d")
    case True
    have "length (utf8_of_codepoint (0x10000 + (unat c - 0xD800) * 0x400 + (unat d - 0xDC00))) = 4"
      by (simp add: utf8_of_codepoint_def)
    with True "3.IH"(1) show ?thesis by simp
  next
    case False
    have eq: "utf8_encode (c # d # cs) = utf8_of_codepoint (scalar c) @ utf8_encode (d # cs)"
      by (simp only: utf8_encode.simps False if_False)
    from "3.IH"(2) [OF False] have "Suc (length cs) \<le> length (utf8_encode (d # cs))"
      by simp
    with utf8_of_codepoint_length [of "scalar c"] show ?thesis
      unfolding eq by simp
  qed
qed

lemma receipt_long: "64 < length (formatReceipt eng now d)"
  by (simp add: formatReceipt_eq receipt_text_def repeat_def js_def)

lemma payload_long: "64 < length (utf8_encode (formatReceipt eng now d))"
  using receipt_long [of eng now d] utf8_encode_length [of "formatReceipt eng now d"]
  by linarith

lemmas serial_defs = printViaSerial_def attempt_def try_catch_def bind_def tell_def call_def
  throw_def pure_def formatReceipt_now_def read_clock_def baudRates_def

lemma serial_host_with_simps:
  "number_engine (serial_host_with f g) = no_engine"
  "toLocaleString (serial_host_with f g) = f"
  "serial_in_navigator (serial_host_with f g)"
  "serial_requestPort (serial_host_with f g)"
  "serial_open (serial_host_with f g) b = (b = 115200)"
  "serial_getWriter (serial_host_with f g)"
  "serial_write (serial_host_with f g) = g"
  "serial_releaseLock (serial_host_with f g)"
  "serial_close (serial_host_with f g)"
  by (simp_all add: serial_host_with_def dead_host_def)

lemma steady_serial_run:
  "printViaSerial steady_host d start =
     (Inr (),
      \<lparr>trace = [Invoke Serial, SerialRequestPort, SerialOpen 9600, ConsoleLog_baud 9600,
          SerialOpen 115200, SerialGetWriter]
          @ writes (utf8_encode (formatReceipt no_engine sample_now d))
          @ [SerialReleaseLock, SerialClose, Resolved Serial],
       clock_reads = 1\<rparr>)"
proof -
  have w: "write_chunks steady_host a 0 w = (Inr (), w\<lparr>trace := trace w @ writes a\<rparr>)" for a w
    using reliable_writes [of steady_host a 0 w]
    by (simp add: steady_host_def serial_host_with_simps)
  show ?thesis
    by (simp add: serial_defs w start_def)
       (simp add: steady_host_def serial_host_with_simps)
qed

lemma flaky_serial_run:
  "printViaSerial flaky_host d start =
     (Inl (SerialPrintingFailed HostError),
      \<lparr>trace = [Invoke Serial, SerialRequestPort, SerialOpen 9600, ConsoleLog_baud 9600,
          SerialOpen 115200, SerialGetWriter,
          SerialWrite (take 64 (utf8_encode (formatReceipt no_engine sample_now d))),
          Sleep 10,
          SerialWrite (take 64 (drop 64 (utf8_encode (formatReceipt no_engine sample_now d)))),
          Rejected Serial (SerialPrintingFailed HostError)],
       clock_reads = 1\<rparr>)"
  by (simp add: serial_defs flaky_writes payload_long start_def)
     (simp add: flaky_host_def serial_host_with_simps)

text \<open>
  C8: \<open>printViaSerial\<close> cuts the bytes of the receipt it formats into chunks of 64 bytes:
  the concatenation of the chunks is the payload, every chunk has between 1 and 64 bytes,
  and every chunk but the last has 64. It writes them in that order: the chunks written,
  in the order of the writes, are an initial part of the list of the chunks, and all of
  them when the strategy resolves, so that their concatenation is then the payload. If
  the port refuses a chunk, that chunk is the last one written and the strategy fails
  with \<open>Serial printing failed\<close>: nothing is written after a failed write.
\<close>

theorem serial_chunks_in_order:
  assumes "printViaSerial h d w = (r, w')"
  shows "chunkSize = 64
    \<and> concat (chop chunkSize (serial_payload h d w)) = serial_payload h d w
    \<and> (\<forall>c \<in> set (chop chunkSize (serial_payload h d w)). 0 < length c \<and> length c \<le> 64)
    \<and> (\<forall>c \<in> set (butlast (chop chunkSize (serial_payload h d w))). length c = 64)
    \<and> prefix (serial_chunks (events_since w w')) (chop chunkSize (serial_payload h d w))
    \<and> (r = Inr () \<longrightarrow>
         serial_chunks (events_since w w') = chop chunkSize (serial_payload h d w)
         \<and> concat (serial_chunks (events_since w w')) = serial_payload h d w)
    \<and> (\<forall>j < length (serial_chunks (events_since w w')).
         \<not> serial_write h (chunkSize * j) (serial_chunks (events_since w w') ! j) \<longrightarrow>
           Suc j = length (serial_chunks (events_since w w'))
           \<and> r = Inl (SerialPrintingFailed HostError))"
proof -
  let ?p = "formatReceipt (number_engine h) (toLocaleString h (clock_reads w)) d"
  from assms have r: "r = fst (printViaSerial h d w)" and w': "w' = snd (printViaSerial h d w)"
    by simp_all
  from printViaSerial_facts [of h d w]
  obtain x n where
    snd: "w' = w\<lparr>trace := trace w @ segment Serial x r, clock_reads := clock_reads w + n\<rparr>"
    and facts: "serial_facts h ?p r x"
    unfolding r w' by blast
  have E: "events_since w w' = segment Serial x r"
    by (simp add: snd events_since_def)
  have cs: "serial_chunks (events_since w w') = serial_chunks x"
    by (simp add: E serial_chunks_segment)
  have n: "0 < chunkSize" by (simp add: chunkSize_def)
  have 1: "chunkSize = 64" by (simp add: chunkSize_def)
  have 2: "concat (chop chunkSize (serial_payload h d w)) = serial_payload h d w"
    using n by (rule concat_chop)
  have 3: "\<forall>c \<in> set (chop chunkSize (serial_payload h d w)). 0 < length c \<and> length c \<le> 64"
    using chop_lengths [OF n] by (auto simp: chunkSize_def)
  have 4: "\<forall>c \<in> set (butlast (chop chunkSize (serial_payload h d w))). length c = 64"
    using chop_full [OF n] by (auto simp: chunkSize_def)
  have 5: "prefix (serial_chunks (events_since w w')) (chop chunkSize (serial_payload h d w))"
  proof -
    from facts have "prefix (serial_chunks x) (chop chunkSize (utf8_encode ?p))"
      unfolding serial_facts_def by blast
    then show ?thesis
      unfolding cs serial_payload_def .
  qed
  have 6: "r = Inr () \<longrightarrow>
         serial_chunks (events_since w w') = chop chunkSize (serial_payload h d w)
         \<and> concat (serial_chunks (events_since w w')) = serial_payload h d w"
  proof
    assume "r = Inr ()"
    with facts have "serial_chunks x = chop chunkSize (utf8_encode ?p)"
      unfolding serial_facts_def by blast
    then have "serial_chunks (events_since w w') = chop chunkSize (serial_payload h d w)"
      unfolding cs serial_payload_def .
    with 2 show "serial_chunks (events_since w w') = chop chunkSize (serial_payload h d w)
         \<and> concat (serial_chunks (events_since w w')) = serial_payload h d w"
      by (simp only: simp_thms)
  qed
  have 7: "\<forall>j < length (serial_chunks (events_since w w')).
         \<not> serial_write h (chunkSize * j) (serial_chunks (events_since w w') ! j) \<longrightarrow>
           Suc j = length (serial_chunks (events_since w w'))
           \<and> r = Inl (SerialPrintingFailed HostError)"
  proof -
    from facts have "accepted_but_last h 0 (serial_chunks x) r (SerialPrintingFailed HostError)"
      unfolding serial_facts_def by blast
    then show ?thesis
      unfolding cs accepted_but_last_def by simp
  qed
  from 1 2 3 4 5 6 7 show ?thesis by blast
qed

text \<open>
  On a port that accepts everything the strategy resolves and the chunks written are all
  the chunks of the payload, which is longer than one chunk; on a port that refuses the
  chunk at offset 64 the strategy fails after writing the first two chunks.
\<close>

theorem serial_chunks_in_order_witness:
  "fst (printViaSerial steady_host turmeric_sale start) = Inr ()
   \<and> serial_chunks (events_since start (snd (printViaSerial steady_host turmeric_sale start)))
       = chop chunkSize (serial_payload steady_host turmeric_sale start)
   \<and> concat (serial_chunks (events_since start (snd (printViaSerial steady_host turmeric_sale start))))
       = utf8_encode (formatReceipt no_engine sample_now turmeric_sale)
   \<and> 64 < length (serial_payload steady_host turmeric_sale start)
   \<and> fst (printViaSerial flaky_host turmeric_sale start) = Inl (SerialPrintingFailed HostError)
   \<and> serial_chunks (events_since start (snd (printViaSerial flaky_host turmeric_sale start)))
       = [take 64 (serial_payload flaky_host turmeric_sale start),
          take 64 (drop 64 (serial_payload flaky_host turmeric_sale start))]
   \<and> \<not> serial_write flaky_host (chunkSize * 1)
         (serial_chunks (events_since start (snd (printViaSerial flaky_host turmeric_sale start))) ! 1)"
proof -
  let ?s = "printViaSerial steady_host turmeric_sale start"
  let ?f = "printViaSerial flaky_host turmeric_sale start"
  have ps: "serial_payload steady_host turmeric_sale start
      = utf8_encode (formatReceipt no_engine sample_now turmeric_sale)"
    by (simp add: serial_payload_def steady_host_def serial_host_with_simps)
  have pf: "serial_payload flaky_host turmeric_sale start
      = utf8_encode (formatReceipt no_engine sample_now turmeric_sale)"
    by (simp add: serial_payload_def flaky_host_def serial_host_with_simps)
  have a: "fst ?s = Inr ()"
    by (simp add: steady_serial_run)
  have run: "?s = (Inr (), snd ?s)"
    using a by (simp add: prod_eq_iff)
  note t = serial_chunks_in_order [OF run]
  from t have b: "serial_chunks (events_since start (snd ?s))
       = chop chunkSize (serial_payload steady_host turmeric_sale start)"
    by blast
  from t have c: "concat (serial_chunks (events_since start (snd ?s)))
       = utf8_encode (formatReceipt no_engine sample_now turmeric_sale)"
    unfolding ps by blast
  have d: "64 < length (serial_payload steady_host turmeric_sale start)"
    unfolding ps by (rule payload_long)
  have e: "fst ?f = Inl (SerialPrintingFailed HostError)"
    by (simp add: flaky_serial_run)
  have f: "serial_chunks (events_since start (snd ?f))
       = [take 64 (serial_payload flaky_host turmeric_sale start),
          take 64 (drop 64 (serial_payload flaky_host turmeric_sale start))]"
    unfolding pf by (simp add: flaky_serial_run events_since_start)
  have g: "\<not> serial_write flaky_host (chunkSize * 1)
         (serial_chunks (events_since start (snd ?f)) ! 1)"
    by (simp add: flaky_host_def serial_host_with_simps chunkSize_def)
  from a b c d e f g show ?thesis by blast
qed

section \<open>The payloads of one run\<close>

lemma carries_quiet: "\<not> delivery e \<Longrightarrow> carries p e"
  by (cases e) simp_all

lemma carries_not_plain: "\<not> plain e \<Longrightarrow> carries p e"
  by (cases e) simp_all

lemma list_all_segment:
  assumes "list_all Q x" "\<And>e. \<not> plain e \<Longrightarrow> Q e"
  shows "list_all Q (segment s x r)"
  using assms by (cases r) (simp_all add: segment_def settled_def)

lemma resolved_not_plain: "list_all plain x \<Longrightarrow> Resolved s \<notin> set x"
  using unresolved_plain [of x] by (simp add: unresolved_def)

lemma resolved_in_segment:
  assumes "list_all plain x" "Resolved s \<in> set (segment t x r)"
  shows "s = t \<and> r = Inr ()"
  using assms resolved_not_plain [OF assms(1), of s]
  by (cases r) (auto simp: segment_def settled_def)

lemma methods_resolved:
  assumes "\<And>e. P e \<Longrightarrow> plain e"
  shows "methods_shape P ss r evs \<Longrightarrow> Resolved s \<in> set evs \<Longrightarrow> s \<in> set ss"
proof (induction ss arbitrary: evs)
  case Nil
  then show ?case by simp
next
  case (Cons t ss)
  from Cons.prems(1) consider
    (stops) x where "list_all P x" "evs = segment t x (Inr ())"
  | (goes_on) x e rest where "list_all P x" "evs = segment t x (Inl e) @ ConsoleLog_method e # rest"
      "methods_shape P ss r rest"
    by auto
  then show ?case
  proof cases
    case stops
    from stops(1) assms have pl: "list_all plain x" by (rule list_all_weaken)
    have "Resolved s \<in> set (segment t x (Inr ()))"
      using Cons.prems(2) unfolding stops(2) .
    from resolved_in_segment [OF pl this] show ?thesis by simp
  next
    case goes_on
    from goes_on(1) assms have pl: "list_all plain x" by (rule list_all_weaken)
    from resolved_in_segment [OF pl, of s t "Inl e"]
    have "Resolved s \<notin> set (segment t x (Inl e))" by blast
    moreover have "Resolved s \<in> set (segment t x (Inl e)) \<or> Resolved s \<in> set rest"
      using Cons.prems(2) unfolding goes_on(2) by simp
    ultimately have "Resolved s \<in> set rest" by blast
    from Cons.IH [OF goes_on(3) this] show ?thesis by simp
  qed
qed

lemma pos_carries:
  assumes "methods_shape (pos_event p) pos_strategies r evs"
  shows "list_all (carries p) evs" "serial_chunks evs = []" "Resolved Serial \<notin> set evs"
proof -
  show "list_all (carries p) evs"
    by (rule methods_list_all [OF _ _ _ assms]) (simp_all add: pos_event_def carries_not_plain)
  have "list_all (\<lambda>e. \<not> serial_write_event e) evs"
  proof (rule methods_list_all [OF _ _ _ assms])
    show "pos_event p e \<Longrightarrow> \<not> serial_write_event e" for e by (simp add: pos_event_def)
    show "\<not> plain e \<Longrightarrow> \<not> serial_write_event e" for e by (cases e) simp_all
    show "\<not> serial_write_event (ConsoleLog_method e)" for e by simp
  qed
  then show "serial_chunks evs = []" by (rule serial_chunks_none)
  from methods_resolved [of "pos_event p" pos_strategies r evs Serial, OF pos_event_plain assms]
  show "Resolved Serial \<notin> set evs" by (auto simp: pos_strategies_def)
qed

lemma serial_carries:
  assumes "serial_facts h p r x"
  shows "list_all (carries q) (segment Serial x r)"
proof -
  from assms have "list_all (\<lambda>e. plain e \<and> \<not> delivery e) x"
    by (simp add: serial_facts_def)
  then have "list_all (carries q) x"
    by (rule list_all_weaken) (simp add: carries_quiet)
  then show ?thesis by (rule list_all_segment) (rule carries_not_plain)
qed

lemma browser_carries:
  assumes "list_all quiet_event x"
  shows "list_all (carries q) (segment Browser x r)" "serial_chunks (segment Browser x r) = []"
    "Resolved Serial \<notin> set (segment Browser x r)"
proof -
  from assms have "list_all (carries q) x"
    by (rule list_all_weaken) (simp add: quiet_event_def carries_quiet)
  then show "list_all (carries q) (segment Browser x r)"
    by (rule list_all_segment) (rule carries_not_plain)
  show "serial_chunks (segment Browser x r) = []"
    using quiet_chunks [OF assms] by (simp add: serial_chunks_segment)
  from resolved_in_segment [OF quiet_plain [OF assms], of Serial Browser r]
  show "Resolved Serial \<notin> set (segment Browser x r)" by auto
qed

lemma print_payload_facts:
  fixes h d w
  defines "p0 \<equiv> receipt_at h d (clock_reads w)"
  defines "p1 \<equiv> receipt_at h d (Suc (clock_reads w))"
  defines "E \<equiv> events_since w (snd (print h d w))"
  shows "list_all (carries p0) E"
    and "prefix (serial_chunks E) (chop chunkSize (utf8_encode p1))"
    and "Resolved Serial \<in> set E \<Longrightarrow> serial_chunks E = chop chunkSize (utf8_encode p1)"
proof -
  have "list_all (carries p0) E
    \<and> prefix (serial_chunks E) (chop chunkSize (utf8_encode p1))
    \<and> (Resolved Serial \<in> set E \<longrightarrow> serial_chunks E = chop chunkSize (utf8_encode p1))"
  proof (cases rule: cases_of_print [of h d w])
    case pos
    from pos_carries [OF pos(2)] show ?thesis
      unfolding p0_def p1_def E_def receipt_at_def by simp
  next
    case (serial evs x5)
    note pc = pos_carries [OF serial(3)]
    from serial(4) have sf: "serial_chunks x5
        = chop chunkSize (utf8_encode (formatReceipt (number_engine h)
            (toLocaleString h (Suc (clock_reads w))) d))"
      unfolding serial_facts_def by blast
    show ?thesis
      unfolding p0_def p1_def E_def receipt_at_def serial(5)
      using pc serial_carries [OF serial(4)] sf
      by (simp add: serial_chunks_append serial_chunks_segment)
  next
    case (browser evs x5 e5 x6 now)
    note pc = pos_carries [OF browser(2)]
    from browser(3) have sf: "prefix (serial_chunks x5)
        (chop chunkSize (utf8_encode (formatReceipt (number_engine h)
            (toLocaleString h (Suc (clock_reads w))) d)))"
      unfolding serial_facts_def by blast
    from resolved_in_segment [OF serial_facts_plain [OF browser(3)], of Serial Serial "Inl e5"]
    have nr: "Resolved Serial \<notin> set (segment Serial x5 (Inl e5))" by auto
    show ?thesis
      unfolding p0_def p1_def E_def receipt_at_def browser(6)
      using pc serial_carries [OF browser(3)] sf nr browser_carries [OF browser(4)]
      by (simp add: serial_chunks_append serial_chunks_segment)
  next
    case (browser_only evs x6 now)
    note pc = pos_carries [OF browser_only(2)]
    show ?thesis
      unfolding p0_def p1_def E_def receipt_at_def browser_only(5)
      using pc browser_carries [OF browser_only(3)]
      by (simp add: serial_chunks_append)
  qed
  then show "list_all (carries p0) E"
    and "prefix (serial_chunks E) (chop chunkSize (utf8_encode p1))"
    and "Resolved Serial \<in> set E \<Longrightarrow> serial_chunks E = chop chunkSize (utf8_encode p1)"
    by blast+
qed

subsection \<open>Receipts that differ in the timestamp\<close>

lemma utf8_append:
  "a \<noteq> [] \<Longrightarrow> \<not> is_high (last a) \<Longrightarrow> utf8_encode (a @ b) = utf8_encode a @ utf8_encode b"
proof (induction a rule: utf8_encode.induct)
  case 1
  then show ?case by simp
next
  case (2 c)
  then show ?case by (cases b) simp_all
next
  case (3 c d cs)
  show ?case
  proof (cases "is_high c \<and> is_low d")
    case True
    show ?thesis
    proof (cases "cs = []")
      case True
      with \<open>is_high c \<and> is_low d\<close> show ?thesis by simp
    next
      case False
      with "3.prems" have "\<not> is_high (last cs)" by simp
      from "3.IH"(1) [OF True False this] True show ?thesis by simp
    qed
  next
    case False
    from "3.prems" have "\<not> is_high (last (d # cs))" by simp
    from "3.IH"(2) [OF False _ this]
    have ih: "utf8_encode ((d # cs) @ b) = utf8_encode (d # cs) @ utf8_encode b" by simp
    have e1: "utf8_encode ((c # d # cs) @ b)
        = utf8_of_codepoint (scalar c) @ utf8_encode ((d # cs) @ b)"
      by (simp only: append_Cons utf8_encode.simps False if_False)
    have e2: "utf8_encode (c # d # cs) = utf8_of_codepoint (scalar c) @ utf8_encode (d # cs)"
      by (simp only: utf8_encode.simps False if_False)
    show ?thesis by (simp only: e1 e2 ih append_assoc)
  qed
qed

lemma ascii_not_high: "\<not> is_high 0x20" "\<not> is_high 0x0A"
  by (simp_all add: is_high_def)

lemma receipt_around_now:
  "\<exists>A B. \<forall>now. formatReceipt eng now d = (A @ js ''Date: '') @ (now @ LINE_FEED) @ B"
proof -
  let ?A = "INIT @ (ESC @ js ''@'') @ [0x0A] @ ALIGN_CENTER @ SIZE_DOUBLE @ BOLD_ON
     @ (storeName d @ LINE_FEED) @ BOLD_OFF @ SIZE_NORMAL @ LINE_FEED
     @ ALIGN_LEFT @ (repeat (js ''-'') 48 @ LINE_FEED)
     @ (if truthy (customerName d) then js ''Customer: '' @ the (customerName d) @ LINE_FEED else [])
     @ (if truthy (customerPhone d) then js ''Phone: '' @ the (customerPhone d) @ LINE_FEED else [])"
  let ?B = "(js ''Payment: '' @ paymentMethod d @ LINE_FEED)
     @ (repeat (js ''-'') 48 @ LINE_FEED)
     @ (padLine (js ''Item'') (js ''Qty'') (js ''Price'') (js ''Total'') @ LINE_FEED)
     @ (repeat (js ''-'') 48 @ LINE_FEED)
     @ concat (map (\<lambda>i. item_row eng (currency d) i @ LINE_FEED) (items d))
     @ (repeat (js ''-'') 48 @ LINE_FEED)
     @ ALIGN_RIGHT
     @ (js ''Subtotal: '' @ currency d @ toFixed2 eng (subtotal d) @ LINE_FEED)
     @ (if gt0 (taxPercentage d) then tax_line eng d else [])
     @ BOLD_ON
     @ (js ''TOTAL: '' @ currency d @ toFixed2 eng (grandTotal d) @ LINE_FEED)
     @ BOLD_OFF @ ALIGN_CENTER @ LINE_FEED
     @ (js ''Thank you for your business!'' @ LINE_FEED)
     @ LINE_FEED @ LINE_FEED @ CUT_PAPER @ []"
  have "\<forall>now. formatReceipt eng now d = (?A @ js ''Date: '') @ (now @ LINE_FEED) @ ?B"
    by (simp only: formatReceipt_eq receipt_text_def append_assoc simp_thms)
  then show ?thesis by blast
qed

lemma payload_around_now:
  "\<exists>U V. \<forall>now. utf8_encode (formatReceipt eng now d) = U @ utf8_encode (now @ LINE_FEED) @ V"
proof -
  from receipt_around_now [of eng d] obtain A B where
    eq: "\<And>now. formatReceipt eng now d = (A @ js ''Date: '') @ (now @ LINE_FEED) @ B"
    by blast
  have "utf8_encode (formatReceipt eng now d)
      = utf8_encode (A @ js ''Date: '') @ utf8_encode (now @ LINE_FEED) @ utf8_encode B" for now
  proof -
    have 1: "A @ js ''Date: '' \<noteq> []" "\<not> is_high (last (A @ js ''Date: ''))"
      by (simp_all add: js_def ascii_not_high)
    have 2: "now @ LINE_FEED \<noteq> []" "\<not> is_high (last (now @ LINE_FEED))"
      by (simp_all add: LINE_FEED_def LF_def ascii_not_high)
    show ?thesis
      unfolding eq by (simp only: utf8_append [OF 1] utf8_append [OF 2])
  qed
  then show ?thesis by blast
qed

lemma payload_differs:
  assumes "utf8_encode (now @ LINE_FEED) \<noteq> utf8_encode (now' @ LINE_FEED)"
  shows "utf8_encode (formatReceipt eng now d) \<noteq> utf8_encode (formatReceipt eng now' d)"
proof -
  from payload_around_now [of eng d] obtain U V where
    eq: "\<And>now. utf8_encode (formatReceipt eng now d) = U @ utf8_encode (now @ LINE_FEED) @ V"
    by blast
  show ?thesis
    unfolding eq using assms by simp
qed

lemma later_differs:
  "utf8_encode (later_now @ LINE_FEED) \<noteq> utf8_encode (sample_now @ LINE_FEED)"
  by (simp add: later_now_def sample_now_def LINE_FEED_def LF_def js_def is_high_def is_low_def
      scalar_def utf8_of_codepoint_def)

lemma utf8_snoc:
  "\<not> is_low c \<Longrightarrow> utf8_encode (a @ [c]) = utf8_encode a @ utf8_encode [c]"
proof (induction a rule: utf8_encode.induct)
  case 1
  show ?case by simp
next
  case (2 x)
  then show ?case by simp
next
  case (3 x y cs)
  show ?case
  proof (cases "is_high x \<and> is_low y")
    case True
    from "3.IH"(1) [OF True "3.prems"] True show ?thesis by simp
  next
    case False
    from "3.IH"(2) [OF False "3.prems"]
    have ih: "utf8_encode ((y # cs) @ [c]) = utf8_encode (y # cs) @ utf8_encode [c]" .
    have e1: "utf8_encode ((x # y # cs) @ [c])
        = utf8_of_codepoint (scalar x) @ utf8_encode ((y # cs) @ [c])"
      by (simp only: append_Cons utf8_encode.simps False if_False)
    have e2: "utf8_encode (x # y # cs) = utf8_of_codepoint (scalar x) @ utf8_encode (y # cs)"
      by (simp only: utf8_encode.simps False if_False)
    show ?thesis by (simp only: e1 e2 ih append_assoc)
  qed
qed

lemma payload_equal_iff:
  "(utf8_encode (formatReceipt eng now d) = utf8_encode (formatReceipt eng now' d))
     = (utf8_encode now = utf8_encode now')"
proof -
  from payload_around_now [of eng d] obtain U V where
    eq: "\<And>now. utf8_encode (formatReceipt eng now d) = U @ utf8_encode (now @ LINE_FEED) @ V"
    by blast
  have lf: "utf8_encode (t @ LINE_FEED) = utf8_encode t @ utf8_encode LINE_FEED" for t
    unfolding LINE_FEED_def LF_def by (rule utf8_snoc) (simp add: is_low_def)
  show ?thesis
    unfolding eq lf by simp
qed

lemma later_bytes_differ: "utf8_encode later_now \<noteq> utf8_encode sample_now"
  by (simp add: later_now_def sample_now_def js_def is_high_def is_low_def
      scalar_def utf8_of_codepoint_def)

lemma serial_host_run:
  "print serial_host d start =
     (Inr (),
      \<lparr>trace =
         [Invoke WebUSB, Rejected WebUSB WebUSBNotSupported, ConsoleLog_method WebUSBNotSupported,
          Invoke AndroidIntent, Rejected AndroidIntent AndroidNotAvailable,
          ConsoleLog_method AndroidNotAvailable,
          Invoke WindowsPrint, Rejected WindowsPrint WindowsNotAvailable,
          ConsoleLog_method WindowsNotAvailable,
          Invoke RawSocket,
          Fetch (js ''http://192.168.1.100:9100'') (formatReceipt no_engine sample_now d),
          Fetch (js ''http://192.168.0.100:9100'') (formatReceipt no_engine sample_now d),
          Fetch (js ''http://10.0.0.100:9100'') (formatReceipt no_engine sample_now d),
          Rejected RawSocket RawSocketFailed, ConsoleLog_method RawSocketFailed,
          ConsoleError_POS AllPOSMethodsFailed,
          Invoke Serial, SerialRequestPort, SerialOpen 9600, ConsoleLog_baud 9600,
          SerialOpen 115200, SerialGetWriter]
          @ writes (utf8_encode (formatReceipt no_engine later_now d))
          @ [SerialReleaseLock, SerialClose, Resolved Serial],
       clock_reads = 2\<rparr>)"
proof -
  have w: "write_chunks serial_host a 0 w = (Inr (), w\<lparr>trace := trace w @ writes a\<rparr>)" for a w
    using reliable_writes [of serial_host a 0 w]
    by (simp add: serial_host_def serial_host_with_simps)
  have h: "number_engine serial_host = no_engine"
    "toLocaleString serial_host = (\<lambda>k. if k = 0 then sample_now else later_now)"
    "\<not> usb_in_navigator serial_host" "\<not> android_defined serial_host"
    "\<not> androidIntent_in_window serial_host" "\<not> external_print_defined serial_host"
    "fetch serial_host = (\<lambda>url body. FetchRejected)"
    "serial_in_navigator serial_host" "serial_requestPort serial_host"
    "serial_open serial_host = (\<lambda>b. b = 115200)" "serial_getWriter serial_host"
    "serial_releaseLock serial_host" "serial_close serial_host"
    by (simp_all add: serial_host_def serial_host_with_def dead_host_def)
  show ?thesis
    by (simp add: run_defs printViaSerial_def baudRates_def w h url_1 url_2 url_3)
qed

text \<open>
  C3, amended: in a run of \<open>print\<close> entered after \<open>k\<close> readings of the clock, every
  payload handed to USB, to a bridge or to a network candidate is the one receipt that
  \<open>printViaPOSCommand\<close> formatted with the \<open>k\<close>-th reading (USB receives its UTF-8
  bytes). The serial strategy formats the receipt again, with the next reading of the
  clock: the chunks it writes are an initial part of the chunks of the bytes of that
  second receipt, and their concatenation is those bytes when the serial strategy
  resolves. The bytes of the second receipt are those of the first exactly when the
  UTF-8 bytes of the two timestamps are equal; in particular, when the two readings of
  the clock are equal, the chunks are those of the first receipt.
\<close>

theorem print_payloads:
  assumes "print h d w = (r, w')"
  shows "list_all (carries (receipt_at h d (clock_reads w))) (events_since w w')
    \<and> prefix (serial_chunks (events_since w w'))
        (chop chunkSize (utf8_encode (receipt_at h d (Suc (clock_reads w)))))
    \<and> (Resolved Serial \<in> set (events_since w w') \<longrightarrow>
         concat (serial_chunks (events_since w w'))
           = utf8_encode (receipt_at h d (Suc (clock_reads w))))
    \<and> (toLocaleString h (Suc (clock_reads w)) = toLocaleString h (clock_reads w) \<longrightarrow>
         prefix (serial_chunks (events_since w w'))
           (chop chunkSize (utf8_encode (receipt_at h d (clock_reads w)))))
    \<and> (utf8_encode (receipt_at h d (Suc (clock_reads w)))
          = utf8_encode (receipt_at h d (clock_reads w)))
       = (utf8_encode (toLocaleString h (Suc (clock_reads w)))
          = utf8_encode (toLocaleString h (clock_reads w)))"
proof -
  from assms have w': "w' = snd (print h d w)" by simp
  note f = print_payload_facts [where h = h and d = d and w = w, folded w']
  have n: "0 < chunkSize" by (simp add: chunkSize_def)
  have 3: "Resolved Serial \<in> set (events_since w w') \<longrightarrow>
         concat (serial_chunks (events_since w w'))
           = utf8_encode (receipt_at h d (Suc (clock_reads w)))"
  proof
    assume "Resolved Serial \<in> set (events_since w w')"
    from f(3) [OF this] show "concat (serial_chunks (events_since w w'))
           = utf8_encode (receipt_at h d (Suc (clock_reads w)))"
      by (simp only: concat_chop [OF n])
  qed
  have 4: "toLocaleString h (Suc (clock_reads w)) = toLocaleString h (clock_reads w) \<longrightarrow>
         prefix (serial_chunks (events_since w w'))
           (chop chunkSize (utf8_encode (receipt_at h d (clock_reads w))))"
  proof
    assume "toLocaleString h (Suc (clock_reads w)) = toLocaleString h (clock_reads w)"
    then have "receipt_at h d (Suc (clock_reads w)) = receipt_at h d (clock_reads w)"
      by (simp add: receipt_at_def)
    with f(2) show "prefix (serial_chunks (events_since w w'))
           (chop chunkSize (utf8_encode (receipt_at h d (clock_reads w))))"
      by simp
  qed
  have 5: "(utf8_encode (receipt_at h d (Suc (clock_reads w)))
          = utf8_encode (receipt_at h d (clock_reads w)))
       = (utf8_encode (toLocaleString h (Suc (clock_reads w)))
          = utf8_encode (toLocaleString h (clock_reads w)))"
    unfolding receipt_at_def by (rule payload_equal_iff)
  from f(1) f(2) 3 4 5 show ?thesis by blast
qed

text \<open>
  C3, as stated, fails: on the host whose only working device is a serial port and whose
  clock advances between two readings, the network candidates are given the receipt
  formatted with the first reading, and the bytes written to the serial port are those
  of a receipt formatted a second time, with the second reading; the two byte payloads
  differ.
\<close>

theorem serial_formats_again:
  "Fetch (js ''http://192.168.1.100:9100'') (formatReceipt no_engine sample_now turmeric_sale)
     \<in> set (trace (snd (print serial_host turmeric_sale start)))
   \<and> concat (serial_chunks (trace (snd (print serial_host turmeric_sale start))))
       = utf8_encode (formatReceipt no_engine later_now turmeric_sale)
   \<and> utf8_encode (formatReceipt no_engine later_now turmeric_sale)
       \<noteq> utf8_encode (formatReceipt no_engine sample_now turmeric_sale)
   \<and> fst (print serial_host turmeric_sale start) = Inr ()
   \<and> clock_reads (snd (print serial_host turmeric_sale start)) = 2"
proof -
  have n: "0 < chunkSize" by (simp add: chunkSize_def)
  have a: "Fetch (js ''http://192.168.1.100:9100'') (formatReceipt no_engine sample_now turmeric_sale)
     \<in> set (trace (snd (print serial_host turmeric_sale start)))"
    by (simp add: serial_host_run)
  have b: "concat (serial_chunks (trace (snd (print serial_host turmeric_sale start))))
       = utf8_encode (formatReceipt no_engine later_now turmeric_sale)"
    by (simp add: serial_host_run serial_chunks_append serial_chunks_writes concat_chop [OF n])
  have c: "utf8_encode (formatReceipt no_engine later_now turmeric_sale)
       \<noteq> utf8_encode (formatReceipt no_engine sample_now turmeric_sale)"
    using later_differs by (rule payload_differs)
  have d: "fst (print serial_host turmeric_sale start) = Inr ()"
    "clock_reads (snd (print serial_host turmeric_sale start)) = 2"
    by (simp_all add: serial_host_run)
  from a b c d show ?thesis by blast
qed

lemma steady_host_run:
  "fst (print steady_host d start) = Inr ()
   \<and> Resolved Serial \<in> set (trace (snd (print steady_host d start)))
   \<and> Fetch (js ''http://10.0.0.100:9100'') (formatReceipt no_engine sample_now d)
       \<in> set (trace (snd (print steady_host d start)))"
proof -
  have w: "write_chunks steady_host a 0 w = (Inr (), w\<lparr>trace := trace w @ writes a\<rparr>)" for a w
    using reliable_writes [of steady_host a 0 w]
    by (simp add: steady_host_def serial_host_with_simps)
  have h: "number_engine steady_host = no_engine"
    "toLocaleString steady_host = (\<lambda>k. sample_now)"
    "\<not> usb_in_navigator steady_host" "\<not> android_defined steady_host"
    "\<not> androidIntent_in_window steady_host" "\<not> external_print_defined steady_host"
    "fetch steady_host = (\<lambda>url body. FetchRejected)"
    "serial_in_navigator steady_host" "serial_requestPort steady_host"
    "serial_open steady_host = (\<lambda>b. b = 115200)" "serial_getWriter steady_host"
    "serial_releaseLock steady_host" "serial_close steady_host"
    by (simp_all add: steady_host_def serial_host_with_def dead_host_def)
  show ?thesis
    by (simp add: run_defs printViaSerial_def baudRates_def w h url_1 url_2 url_3)
qed

text \<open>
  On the host with a serial port and a clock that stands still, the network candidates
  and the serial port are given the same receipt; on the host whose clock advances, the
  bytes of the two receipts differ.
\<close>

theorem print_payloads_witness:
  "toLocaleString steady_host (Suc (clock_reads start)) = toLocaleString steady_host (clock_reads start)
   \<and> Resolved Serial \<in> set (events_since start (snd (print steady_host turmeric_sale start)))
   \<and> Fetch (js ''http://10.0.0.100:9100'') (formatReceipt no_engine sample_now turmeric_sale)
       \<in> set (events_since start (snd (print steady_host turmeric_sale start)))
   \<and> carries (receipt_at steady_host turmeric_sale 0)
       (Fetch (js ''http://10.0.0.100:9100'') (formatReceipt no_engine sample_now turmeric_sale))
   \<and> concat (serial_chunks (events_since start (snd (print steady_host turmeric_sale start))))
       = utf8_encode (formatReceipt no_engine sample_now turmeric_sale)
   \<and> prefix (serial_chunks (events_since start (snd (print steady_host turmeric_sale start))))
       (chop chunkSize (utf8_encode (formatReceipt no_engine sample_now turmeric_sale)))
   \<and> utf8_encode (toLocaleString serial_host (Suc (clock_reads start)))
       \<noteq> utf8_encode (toLocaleString serial_host (clock_reads start))
   \<and> utf8_encode (receipt_at serial_host turmeric_sale (Suc (clock_reads start)))
       \<noteq> utf8_encode (receipt_at serial_host turmeric_sale (clock_reads start))"
proof -
  let ?E = "events_since start (snd (print steady_host turmeric_sale start))"
  have clock: "toLocaleString steady_host (Suc (clock_reads start))
      = toLocaleString steady_host (clock_reads start)"
    by (simp add: steady_host_def serial_host_with_simps)
  have k: "clock_reads start = 0" by (simp add: start_def)
  have ra: "receipt_at steady_host turmeric_sale k = formatReceipt no_engine sample_now turmeric_sale" for k
    by (simp add: receipt_at_def steady_host_def serial_host_with_simps)
  have res: "Resolved Serial \<in> set ?E"
    and fe: "Fetch (js ''http://10.0.0.100:9100'') (formatReceipt no_engine sample_now turmeric_sale)
       \<in> set ?E"
    using steady_host_run [of turmeric_sale] by (simp_all add: events_since_start)
  have run: "print steady_host turmeric_sale start
      = (fst (print steady_host turmeric_sale start), snd (print steady_host turmeric_sale start))"
    by simp
  note t = print_payloads [OF run, unfolded ra]
  from t fe have c: "carries (receipt_at steady_host turmeric_sale 0)
       (Fetch (js ''http://10.0.0.100:9100'') (formatReceipt no_engine sample_now turmeric_sale))"
    unfolding ra by simp
  from t res have cc: "concat (serial_chunks ?E)
       = utf8_encode (formatReceipt no_engine sample_now turmeric_sale)"
    by blast
  from t clock have pr: "prefix (serial_chunks ?E)
       (chop chunkSize (utf8_encode (formatReceipt no_engine sample_now turmeric_sale)))"
    by blast
  have ts: "utf8_encode (toLocaleString serial_host (Suc (clock_reads start)))
       \<noteq> utf8_encode (toLocaleString serial_host (clock_reads start))"
    using later_bytes_differ by (simp add: serial_host_def serial_host_with_simps k)
  have run': "print serial_host turmeric_sale start
      = (fst (print serial_host turmeric_sale start), snd (print serial_host turmeric_sale start))"
    by simp
  from print_payloads [OF run'] ts
  have pd: "utf8_encode (receipt_at serial_host turmeric_sale (Suc (clock_reads start)))
       \<noteq> utf8_encode (receipt_at serial_host turmeric_sale (clock_reads start))"
    by blast
  from clock res fe c cc pr ts pd show ?thesis by blast
qed

end
